theory Spec2Isabelle
  imports Main "HOL-Library.Word"
begin

unbundle bit_operations_syntax

section \<open>Wire constants\<close>

type_synonym byte = "8 word"

text \<open>
  Modelled from the spec: the type-tag constants \<open>TYPE_NIL\<close>, \<open>TYPE_TRUE\<close>, ... used by the
  generator and \<open>typeNil\<close>, \<open>typeTrue\<close>, ... used by the parser. Their declarations are not part
  of the sources at hand; section 4.1 of the specification lists them as the Ruby Marshal
  tags nil=\<open>0\<close>, true=\<open>T\<close>, false=\<open>F\<close>, fixnum=\<open>i\<close>, float=\<open>f\<close>, bignum=\<open>l\<close>, string=\<open>"\<close>,
  symbol=\<open>:\<close>, symlink=\<open>;\<close>, array=\<open>[\<close>, hash=\<open>{\<close>, class=\<open>c\<close>, module=\<open>m\<close>, ivar=\<open>I\<close>,
  object-link=\<open>@\<close>. Generator and parser share one set of values.
\<close>

definition TYPE_NIL :: byte where "TYPE_NIL = 0x30"
definition TYPE_TRUE :: byte where "TYPE_TRUE = 0x54"
definition TYPE_FALSE :: byte where "TYPE_FALSE = 0x46"
definition TYPE_FIXNUM :: byte where "TYPE_FIXNUM = 0x69"
definition TYPE_FLOAT :: byte where "TYPE_FLOAT = 0x66"
definition TYPE_BIGNUM :: byte where "TYPE_BIGNUM = 0x6C"
definition TYPE_STRING :: byte where "TYPE_STRING = 0x22"
definition TYPE_SYMBOL :: byte where "TYPE_SYMBOL = 0x3A"
definition TYPE_SYMLINK :: byte where "TYPE_SYMLINK = 0x3B"
definition TYPE_ARRAY :: byte where "TYPE_ARRAY = 0x5B"
definition TYPE_HASH :: byte where "TYPE_HASH = 0x7B"
definition TYPE_CLASS :: byte where "TYPE_CLASS = 0x63"
definition TYPE_MODULE :: byte where "TYPE_MODULE = 0x6D"
definition TYPE_IVAR :: byte where "TYPE_IVAR = 0x49"
definition TYPE_LINK :: byte where "TYPE_LINK = 0x40"

lemmas type_tags = TYPE_NIL_def TYPE_TRUE_def TYPE_FALSE_def TYPE_FIXNUM_def TYPE_FLOAT_def
  TYPE_BIGNUM_def TYPE_STRING_def TYPE_SYMBOL_def TYPE_SYMLINK_def TYPE_ARRAY_def
  TYPE_HASH_def TYPE_CLASS_def TYPE_MODULE_def TYPE_IVAR_def TYPE_LINK_def

text \<open>
  Modelled from the spec: the fixnum bounds \<open>fixnumMin\<close>, \<open>fixnumMax\<close> and \<open>fixnumMaxBytes\<close>,
  whose declarations are not part of the sources at hand. Section 3 of the specification:
  a packed long is a signed integer in \<open>[-2^31, 2^31-1]\<close>, encoded as a 1-5 byte sequence,
  and the packed long range defines the fixnum range.
\<close>

definition fixnumMin :: int where "fixnumMin = - (2 ^ 31)"
definition fixnumMax :: int where "fixnumMax = 2 ^ 31 - 1"
definition fixnumMaxBytes :: nat where "fixnumMaxBytes = 5"

text \<open>
  Modelled from the spec: \<open>_S\<close>, the size in bytes of a \<open>big.Word\<close>. Its declaration is not
  part of the sources at hand; the model takes a 64-bit platform (Go's \<open>int\<close> and \<open>big.Word\<close>
  are both 64 bits wide), so a word holds eight bytes.
\<close>

definition S_word :: nat where "S_word = 8"

text \<open>A Go string is a sequence of bytes; \<open>len\<close> counts bytes and \<open>copy\<close> moves bytes.\<close>

definition str_bytes :: "string \<Rightarrow> byte list" where
  "str_bytes s = map of_char s"

section \<open>Outcomes of a call\<close>

text \<open>
  Every call either returns normally, returns an error value (the receiver keeps the state
  the call left behind), or panics (an index or slice out of range, a nil dereference, or
  the explicit \<open>panic\<close> at the end of \<open>encodeLong\<close>).
\<close>

datatype panic = IndexOutOfRange | SliceBounds | NilDereference | ShouldNotReachHere

datatype ('e, 'a, 's) res = Ok 'a 's | Err 'e 's | Panic panic

definition bind :: "('e, 'a, 's) res \<Rightarrow> ('a \<Rightarrow> 's \<Rightarrow> ('e, 'b, 's) res) \<Rightarrow> ('e, 'b, 's) res" where
  "bind r f = (case r of Ok a s \<Rightarrow> f a s | Err e s \<Rightarrow> Err e s | Panic k \<Rightarrow> Panic k)"

definition andThen :: "('e, 'a, 's) res \<Rightarrow> ('s \<Rightarrow> ('e, 'b, 's) res) \<Rightarrow> ('e, 'b, 's) res" where
  "andThen r f = bind r (\<lambda>_. f)"

section \<open>The generator\<close>

datatype genStTyp = genStTop | genStArr | genStHash

record genStateItem =
  i_cnt :: int
  i_pos :: int
  i_typ :: genStTyp

text \<open>
  The generator. \<open>g_w\<close> is the sink: the bytes handed to the \<open>io.Writer\<close> so far (an in-memory
  sink whose \<open>Write\<close> accepts everything). \<open>g_st\<close> holds the live frames \<open>stack[0..sz)\<close> of
  \<open>genState\<close>, innermost first, so its head is \<open>*cur\<close> and its length is \<open>sz\<close>; \<open>push\<close> always
  writes all three fields of the slot it takes, so stale slots beyond \<open>sz\<close> are never read.
  \<open>g_buf\<close> is the whole scratch slice (its length is \<open>len(gen.buf)\<close>), \<open>g_bufn\<close> the fill mark.
\<close>

record Generator =
  g_w :: "byte list"
  g_c :: int
  g_st :: "genStateItem list"
  g_buf :: "byte list"
  g_bufn :: nat
  g_symCount :: nat
  g_symTbl :: "string list"

datatype gerror =
    ErrGeneratorFinished
  | ErrGeneratorOverflow
  | ErrEndArrayOutside
  | ErrEndArrayPremature int int
  | ErrEndHashOutside
  | ErrEndHashPremature int int

type_synonym gres = "(gerror, unit, Generator) res"

text \<open>\<open>genState.push\<close>, \<open>genState.pop\<close> and \<open>genState.reset\<close>.\<close>

definition push :: "genStTyp \<Rightarrow> int \<Rightarrow> genStateItem list \<Rightarrow> genStateItem list" where
  "push t n stk = \<lparr>i_cnt = n, i_pos = 0, i_typ = t\<rparr> # stk"

definition pop :: "genStateItem list \<Rightarrow> genStateItem list" where
  "pop stk = tl stk"

definition st_reset :: "genStateItem list" where
  "st_reset = push genStTop 1 []"

text \<open>\<open>gen.buf[gen.bufn] = b; gen.bufn++\<close>\<close>

definition put :: "byte \<Rightarrow> Generator \<Rightarrow> gres" where
  "put b g =
     (if g_bufn g < length (g_buf g)
      then Ok () (g\<lparr>g_buf := (g_buf g)[g_bufn g := b], g_bufn := g_bufn g + 1\<rparr>)
      else Panic IndexOutOfRange)"

text \<open>\<open>copy(gen.buf[gen.bufn:], s); gen.bufn += len(s)\<close>: \<open>copy\<close> moves as many bytes as fit.\<close>

definition copy_str :: "byte list \<Rightarrow> Generator \<Rightarrow> gres" where
  "copy_str bs g =
     (if g_bufn g \<le> length (g_buf g)
      then (let n = min (length (g_buf g) - g_bufn g) (length bs)
            in Ok () (g\<lparr>g_buf := take (g_bufn g) (g_buf g) @ take n bs @ drop (g_bufn g + n) (g_buf g),
                        g_bufn := g_bufn g + length bs\<rparr>))
      else Panic SliceBounds)"

text \<open>
  \<open>Generator.checkState\<close>. The frame test comes first; only then is the scratch buffer grown
  to hold \<open>sz\<close> more bytes.
\<close>

definition checkState :: "nat \<Rightarrow> Generator \<Rightarrow> gres" where
  "checkState sz g =
     (case g_st g of
        [] \<Rightarrow> Panic NilDereference
      | cur # _ \<Rightarrow>
          if i_pos cur = i_cnt cur then
            (if length (g_st g) = 1 then Err ErrGeneratorFinished g
             else Err ErrGeneratorOverflow g)
          else if length (g_buf g) < g_bufn g + sz then
            (let old = (if g_bufn g > 0 then g_buf g else [])
             in Ok () (g\<lparr>g_buf := old @ replicate (g_bufn g + sz - length old) 0\<rparr>))
          else Ok () g)"

text \<open>\<open>Generator.writeAdv\<close>: advance the current frame, and flush when the top frame closes.\<close>

definition writeAdv :: "Generator \<Rightarrow> gres" where
  "writeAdv g =
     (case g_st g of
        [] \<Rightarrow> Panic NilDereference
      | cur # rest \<Rightarrow>
          (let cur' = cur\<lparr>i_pos := i_pos cur + 1\<rparr>;
               g1 = g\<lparr>g_st := cur' # rest\<rparr>
           in if g_bufn g1 > 0 \<and> i_pos cur' = i_cnt cur' \<and> length (g_st g1) = 1
              then Ok () (g1\<lparr>g_w := g_w g1 @ take (g_bufn g1) (g_buf g1),
                            g_c := g_c g1 + int (g_bufn g1),
                            g_bufn := 0\<rparr>)
              else Ok () g1))"

text \<open>
  \<open>Generator.encodeLong\<close>. \<open>n\<close> is an \<open>int64\<close>; \<open>n & 0xFF\<close> and \<open>n >> 8\<close> (arithmetic) are the
  two's complement operations on \<open>int\<close>, and \<open>byte(x)\<close> truncates. The loop over \<open>i = 1..4\<close>
  writes the payload first and the length byte last.
\<close>

function encodeLong_loop :: "nat \<Rightarrow> int \<Rightarrow> Generator \<Rightarrow> gres" where
  "encodeLong_loop i n g =
     (if i < 5 then
        (if g_bufn g + i < length (g_buf g) then
           (let g1 = g\<lparr>g_buf := (g_buf g)[g_bufn g + i := word_of_int (n AND 0xFF)]\<rparr>;
                n1 = drop_bit 8 n
            in if n1 = 0 then
                 Ok () (g1\<lparr>g_buf := (g_buf g1)[g_bufn g := word_of_int (int i)],
                           g_bufn := g_bufn g + i + 1\<rparr>)
               else if n1 = - 1 then
                 Ok () (g1\<lparr>g_buf := (g_buf g1)[g_bufn g := word_of_int (- int i)],
                           g_bufn := g_bufn g + i + 1\<rparr>)
               else encodeLong_loop (i + 1) n1 g1)
         else Panic IndexOutOfRange)
      else Panic ShouldNotReachHere)"
  by pat_completeness auto
termination
  by (relation "measure (\<lambda>(i, n, g). 5 - i)") auto

definition encodeLong :: "int \<Rightarrow> Generator \<Rightarrow> gres" where
  "encodeLong n g =
     (if n = 0 then put 0 g
      else if 0 < n \<and> n < 0x7B then put (word_of_int (n + 5)) g
      else if - 0x7C < n \<and> n < 0 then put (word_of_int ((n - 5) AND 0xFF)) g
      else encodeLong_loop 1 n g)"

text \<open>\<open>Generator.Reset\<close> and \<open>NewGenerator\<close> (a 128-byte scratch buffer, then \<open>Reset\<close>).\<close>

definition Reset :: "Generator \<Rightarrow> gres" where
  "Reset g =
     (if 1 < length (g_buf g)
      then Ok () (g\<lparr>g_st := st_reset, g_c := 0, g_symCount := 0,
                    g_buf := (g_buf g)[0 := 0x04, 1 := 0x08], g_bufn := 2\<rparr>)
      else Panic IndexOutOfRange)"

definition NewGenerator :: gres where
  "NewGenerator =
     Reset \<lparr>g_w = [], g_c = 0, g_st = [], g_buf = replicate 128 0, g_bufn = 0,
            g_symCount = 0, g_symTbl = []\<rparr>"

text \<open>\<open>Generator.Nil\<close> and \<open>Generator.Bool\<close>.\<close>

definition Nil_val :: "Generator \<Rightarrow> gres" where
  "Nil_val g = andThen (andThen (checkState 1 g) (put TYPE_NIL)) writeAdv"

definition Bool :: "bool \<Rightarrow> Generator \<Rightarrow> gres" where
  "Bool b g =
     andThen (andThen (checkState 1 g) (put (if b then TYPE_TRUE else TYPE_FALSE))) writeAdv"

subsection \<open>Bignum\<close>

text \<open>
  \<open>big.Int\<close> as Go represents it: a sign flag and the magnitude as little-endian
  machine words without leading zero words (the slice \<open>Bits()\<close> returns). \<open>SetInt64\<close>
  and \<open>Sign\<close> follow math/big.
\<close>

record bigInt =
  neg :: bool
  abs_words :: "64 word list"

definition SetInt64 :: "int \<Rightarrow> bigInt" where
  "SetInt64 x = \<lparr>neg = (x < 0), abs_words = (if x = 0 then [] else [word_of_int \<bar>x\<bar>])\<rparr>"

definition Sign :: "bigInt \<Rightarrow> int" where
  "Sign b = (if abs_words b = [] then 0 else if neg b then - 1 else 1)"

text \<open>
  The size loop of \<open>Generator.Bignum\<close>. \<open>count_inner k\<close> runs the remaining \<open>k\<close> rounds of
  \<open>for j := 0; j < _S; j++\<close> on one word; \<open>lst\<close> is the test \<open>i == l-1\<close>.
\<close>

fun count_inner :: "nat \<Rightarrow> 64 word \<Rightarrow> bool \<Rightarrow> nat \<Rightarrow> nat" where
  "count_inner 0 d lst sz = sz"
| "count_inner (Suc k) d lst sz =
     (let d' = drop_bit 8 d
      in if d' = 0 \<and> lst then sz + 1 else count_inner k d' lst (sz + 1))"

fun count_outer :: "nat \<Rightarrow> 64 word list \<Rightarrow> nat \<Rightarrow> nat \<Rightarrow> nat" where
  "count_outer i [] l sz = sz"
| "count_outer i (d # ds) l sz = count_outer (i + 1) ds l (count_inner S_word d (int i = int l - 1) sz)"

text \<open>The write loop: the same two loops, storing \<open>byte(d)\<close> and counting in \<open>w\<close>.\<close>

fun write_inner :: "nat \<Rightarrow> 64 word \<Rightarrow> bool \<Rightarrow> nat \<Rightarrow> Generator \<Rightarrow> (gerror, nat, Generator) res" where
  "write_inner 0 d lst w g = Ok w g"
| "write_inner (Suc k) d lst w g =
     bind (put (ucast d) g) (\<lambda>_ g1.
       (let d' = drop_bit 8 d
        in if d' = 0 \<and> lst then Ok (w + 1) g1 else write_inner k d' lst (w + 1) g1))"

fun write_outer :: "nat \<Rightarrow> 64 word list \<Rightarrow> nat \<Rightarrow> nat \<Rightarrow> Generator \<Rightarrow> (gerror, nat, Generator) res" where
  "write_outer i [] l w g = Ok w g"
| "write_outer i (d # ds) l w g =
     bind (write_inner S_word d (int i = int l - 1) w g) (\<lambda>w1 g1. write_outer (i + 1) ds l w1 g1)"

text \<open>\<open>for w < sz { gen.buf[gen.bufn] = 0; gen.bufn++; w++ }\<close>, as \<open>sz - w\<close> rounds.\<close>

fun pad_zeros :: "nat \<Rightarrow> Generator \<Rightarrow> gres" where
  "pad_zeros 0 g = Ok () g"
| "pad_zeros (Suc k) g = andThen (put 0 g) (pad_zeros k)"

text \<open>
  \<open>Generator.Bignum\<close>. The word count \<open>int64(math.Ceil(float64(sz) / 2))\<close> is the integer
  \<open>(sz + 1) div 2\<close> (the conversion is exact for every size a buffer can have).
\<close>

definition Bignum :: "bigInt \<Rightarrow> Generator \<Rightarrow> gres" where
  "Bignum b g =
     (let bits = abs_words b;
          l = length bits;
          sz0 = count_outer 0 bits l 0;
          sz = (if sz0 AND 1 = 1 then sz0 + 1 else sz0)
      in andThen (checkState (2 + fixnumMaxBytes + sz) g) (\<lambda>g.
         andThen (put TYPE_BIGNUM g) (\<lambda>g.
         andThen (put (if Sign b < 0 then 0x2D else 0x2B) g) (\<lambda>g.
         andThen (encodeLong (int ((sz + 1) div 2)) g) (\<lambda>g.
         bind (write_outer 0 bits l 0 g) (\<lambda>w g.
         andThen (pad_zeros (sz - w) g) writeAdv))))))"

text \<open>\<open>Generator.Fixnum\<close>: outside the fixnum bounds the value goes to \<open>Bignum\<close>.\<close>

definition Fixnum :: "int \<Rightarrow> Generator \<Rightarrow> gres" where
  "Fixnum n g =
     (if n < fixnumMin \<or> n > fixnumMax then Bignum (SetInt64 n) g
      else andThen (checkState (fixnumMaxBytes + 1) g) (\<lambda>g.
           andThen (put TYPE_FIXNUM g) (\<lambda>g.
           andThen (encodeLong n g) writeAdv)))"

subsection \<open>Symbols, strings, classes, modules, floats\<close>

text \<open>
  The scan \<open>for i := 0; i < gen.symCount; i++ { if gen.symTbl[i] == sym ... }\<close> of
  \<open>Generator.Symbol\<close>: oldest entry first, stopping at the first hit.
\<close>

datatype scan_result = Found nat | NotFound | ScanPanic

function symScan :: "nat \<Rightarrow> nat \<Rightarrow> string list \<Rightarrow> string \<Rightarrow> scan_result" where
  "symScan i n tbl symb =
     (if i < n then
        (if i < length tbl then
           (if tbl ! i = symb then Found i else symScan (i + 1) n tbl symb)
         else ScanPanic)
      else NotFound)"
  by pat_completeness auto
termination
  by (relation "measure (\<lambda>(i, n, tbl, symb). n - i)") auto

text \<open>
  \<open>Generator.Symbol\<close>. \<open>symTblGrowSize\<close> is declared outside the sources at hand and is
  taken as the parameter \<open>grow\<close>. The table slice is grown when it is empty or full; the
  new slots hold empty strings.
\<close>

definition Symbol :: "nat \<Rightarrow> string \<Rightarrow> Generator \<Rightarrow> gres" where
  "Symbol grow symb g0 =
     (let l0 = length (g_symTbl g0);
          g = (if l0 = 0 \<or> l0 = g_symCount g0
               then g0\<lparr>g_symTbl := g_symTbl g0 @ replicate grow []\<rparr> else g0)
      in case symScan 0 (g_symCount g) (g_symTbl g) symb of
           ScanPanic \<Rightarrow> Panic IndexOutOfRange
         | Found i \<Rightarrow>
             andThen (checkState (1 + fixnumMaxBytes) g) (\<lambda>g.
             andThen (put TYPE_SYMLINK g) (\<lambda>g.
             andThen (encodeLong (int i) g) writeAdv))
         | NotFound \<Rightarrow>
             (let l = length symb
              in andThen (checkState (1 + fixnumMaxBytes + l) g) (\<lambda>g.
                 andThen (put TYPE_SYMBOL g) (\<lambda>g.
                 andThen (encodeLong (int l) g) (\<lambda>g.
                 andThen (copy_str (str_bytes symb) g) (\<lambda>g.
                   if g_symCount g < length (g_symTbl g)
                   then writeAdv (g\<lparr>g_symTbl := (g_symTbl g)[g_symCount g := symb],
                                     g_symCount := g_symCount g + 1\<rparr>)
                   else Panic IndexOutOfRange))))))"

text \<open>\<open>Generator.String\<close>, \<open>Generator.Class\<close> and \<open>Generator.Module\<close> differ in the tag only.\<close>

definition sized :: "byte \<Rightarrow> string \<Rightarrow> Generator \<Rightarrow> gres" where
  "sized tag str g =
     (let l = length str
      in andThen (checkState (1 + fixnumMaxBytes + l) g) (\<lambda>g.
         andThen (put tag g) (\<lambda>g.
         andThen (encodeLong (int l) g) (\<lambda>g.
         andThen (copy_str (str_bytes str) g) writeAdv))))"

definition String :: "string \<Rightarrow> Generator \<Rightarrow> gres" where
  "String str g = sized TYPE_STRING str g"

definition Class :: "string \<Rightarrow> Generator \<Rightarrow> gres" where
  "Class name g = sized TYPE_CLASS name g"

definition Module :: "string \<Rightarrow> Generator \<Rightarrow> gres" where
  "Module name g = sized TYPE_MODULE name g"

text \<open>
  \<open>Generator.Float\<close>. The decimal text of the float is produced by \<open>strconv.AppendFloat\<close>,
  which lies outside this development; the model receives that text as \<open>repr\<close>.
  \<open>AppendFloat\<close> is handed the empty slice \<open>gen.buf[gen.bufn+1:gen.bufn+1:len(gen.buf)]\<close>,
  so the text lands in the scratch buffer just behind the length byte when it fits there
  (otherwise \<open>append\<close> moves to fresh storage and the scratch buffer keeps its contents).
\<close>

definition Float :: "byte list \<Rightarrow> Generator \<Rightarrow> gres" where
  "Float repr g =
     andThen (checkState (1 + 1 + 30) g) (\<lambda>g.
     andThen (put TYPE_FLOAT g) (\<lambda>g.
       if g_bufn g + 1 \<le> length (g_buf g) then
         (let l = length repr;
              g1 = (if g_bufn g + 1 + l \<le> length (g_buf g)
                    then g\<lparr>g_buf := take (g_bufn g + 1) (g_buf g) @ repr
                                     @ drop (g_bufn g + 1 + l) (g_buf g)\<rparr>
                    else g)
          in andThen (encodeLong (int l) g1) (\<lambda>g.
               writeAdv (g\<lparr>g_bufn := g_bufn g + l\<rparr>)))
       else Panic SliceBounds))"

subsection \<open>Arrays and hashes\<close>

definition StartArray :: "int \<Rightarrow> Generator \<Rightarrow> gres" where
  "StartArray l g =
     andThen (checkState (1 + fixnumMaxBytes) g) (\<lambda>g.
     andThen (put TYPE_ARRAY g) (\<lambda>g.
     andThen (encodeLong l g) (\<lambda>g.
       Ok () (g\<lparr>g_st := push genStArr l (g_st g)\<rparr>))))"

definition EndArray :: "Generator \<Rightarrow> gres" where
  "EndArray g =
     (case g_st g of
        [] \<Rightarrow> Err ErrEndArrayOutside g
      | cur # _ \<Rightarrow>
          if i_typ cur \<noteq> genStArr then Err ErrEndArrayOutside g
          else if i_pos cur \<noteq> i_cnt cur then Err (ErrEndArrayPremature (i_pos cur) (i_cnt cur)) g
          else writeAdv (g\<lparr>g_st := pop (g_st g)\<rparr>))"

definition StartHash :: "int \<Rightarrow> Generator \<Rightarrow> gres" where
  "StartHash l g =
     andThen (checkState (1 + fixnumMaxBytes) g) (\<lambda>g.
     andThen (put TYPE_HASH g) (\<lambda>g.
     andThen (encodeLong l g) (\<lambda>g.
       Ok () (g\<lparr>g_st := push genStHash (l * 2) (g_st g)\<rparr>))))"

definition EndHash :: "Generator \<Rightarrow> gres" where
  "EndHash g =
     (case g_st g of
        [] \<Rightarrow> Err ErrEndHashOutside g
      | cur # _ \<Rightarrow>
          if i_typ cur \<noteq> genStHash then Err ErrEndHashOutside g
          else if i_pos cur \<noteq> i_cnt cur then Err (ErrEndHashPremature (i_pos cur) (i_cnt cur)) g
          else writeAdv (g\<lparr>g_st := pop (g_st g)\<rparr>))"

text \<open>The value-writing calls of the generator, as one type, and their dispatch.\<close>

datatype gcall =
    CallNil
  | CallBool bool
  | CallFixnum int
  | CallBignum bigInt
  | CallSymbol string
  | CallString string
  | CallFloat "byte list"
  | CallStartArray int
  | CallStartHash int
  | CallClass string
  | CallModule string

fun call :: "nat \<Rightarrow> gcall \<Rightarrow> Generator \<Rightarrow> gres" where
  "call grow CallNil g = Nil_val g"
| "call grow (CallBool b) g = Bool b g"
| "call grow (CallFixnum n) g = Fixnum n g"
| "call grow (CallBignum b) g = Bignum b g"
| "call grow (CallSymbol s) g = Symbol grow s g"
| "call grow (CallString s) g = String s g"
| "call grow (CallFloat repr) g = Float repr g"
| "call grow (CallStartArray l) g = StartArray l g"
| "call grow (CallStartHash l) g = StartHash l g"
| "call grow (CallClass s) g = Class s g"
| "call grow (CallModule s) g = Module s g"

text \<open>What a call sequence has handed to the sink, when every call returned normally.\<close>

definition written :: "gres \<Rightarrow> byte list option" where
  "written r = (case r of Ok _ g \<Rightarrow> Some (g_w g) | Err _ _ \<Rightarrow> None | Panic _ \<Rightarrow> None)"

text \<open>
  The shape of the frame stack in every state \<open>NewGenerator\<close> and the calls above can
  produce: the synthetic top frame lies at the bottom, array and hash frames above it.
\<close>

fun frames_ok :: "genStateItem list \<Rightarrow> bool" where
  "frames_ok [] = False"
| "frames_ok [f] = (i_typ f = genStTop)"
| "frames_ok (f # fs) = (i_typ f \<noteq> genStTop \<and> frames_ok fs)"

text \<open>The state after \<open>NewGenerator\<close> and \<open>StartArray(0)\<close>: an open, already full array frame.\<close>

definition gen_open_array :: Generator where
  "gen_open_array =
     \<lparr>g_w = [], g_c = 0,
      g_st = [\<lparr>i_cnt = 0, i_pos = 0, i_typ = genStArr\<rparr>, \<lparr>i_cnt = 1, i_pos = 0, i_typ = genStTop\<rparr>],
      g_buf = [0x04, 0x08, 0x5B, 0x00] @ replicate 124 0, g_bufn = 4,
      g_symCount = 0, g_symTbl = []\<rparr>"



section \<open>The wire forms, as the specification words them\<close>

text \<open>
  These definitions follow the specification, not the code; the theorems below compare
  them with what the generator emits.

  The packed long of section 3: \<open>00\<close> for zero, one byte \<open>n + 5\<close> for \<open>1..122\<close>, one byte
  \<open>n - 5\<close> for \<open>-123..-1\<close>, otherwise a length byte \<open>k\<close> (\<open>-k\<close> for a negative number)
  followed by the \<open>k\<close> low bytes of the number, least significant first, where \<open>k\<close> is
  the least of 1..4 for which the bytes above the \<open>k\<close>-th are all zero (all ones for a
  negative number).
\<close>

definition le_bytes :: "nat \<Rightarrow> int \<Rightarrow> byte list" where
  "le_bytes k n = map (\<lambda>i. word_of_int (drop_bit (8 * i) n)) [0..<k]"

definition plen :: "int \<Rightarrow> nat" where
  "plen n =
     (if drop_bit 8 n = 0 \<or> drop_bit 8 n = - 1 then 1
      else if drop_bit 16 n = 0 \<or> drop_bit 16 n = - 1 then 2
      else if drop_bit 24 n = 0 \<or> drop_bit 24 n = - 1 then 3
      else 4)"

definition tag_of :: "int \<Rightarrow> byte" where
  "tag_of n = word_of_int (if 0 \<le> n then int (plen n) else - int (plen n))"

definition pl :: "int \<Rightarrow> byte list" where
  "pl n =
     (if n = 0 then [0]
      else if 0 < n \<and> n < 123 then [word_of_int (n + 5)]
      else if - 124 < n \<and> n < 0 then [word_of_int (n - 5)]
      else tag_of n # le_bytes (plen n) n)"

text \<open>
  The symbol table of section 3: the distinct symbols of a call sequence in the order of
  their first appearance; the id of a symbol is its index there. Call number \<open>i\<close> of the
  sequence \<open>ss\<close> is on the wire a symbol (tag, length, bytes) when its string has not
  occurred before, and a symlink carrying the id otherwise.
\<close>

fun index_of :: "string \<Rightarrow> string list \<Rightarrow> nat" where
  "index_of s [] = 0"
| "index_of s (x # xs) = (if x = s then 0 else Suc (index_of s xs))"

fun first_seen_acc :: "string list \<Rightarrow> string list \<Rightarrow> string list" where
  "first_seen_acc tbl [] = tbl"
| "first_seen_acc tbl (s # ss) = first_seen_acc (if s \<in> set tbl then tbl else tbl @ [s]) ss"

definition first_seen :: "string list \<Rightarrow> string list" where
  "first_seen ss = first_seen_acc [] ss"

definition sym_id :: "string list \<Rightarrow> string \<Rightarrow> nat" where
  "sym_id ss s = index_of s (first_seen ss)"

definition sym_wire :: "string list \<Rightarrow> nat \<Rightarrow> byte list" where
  "sym_wire ss i =
     (let s = ss ! i
      in if s \<in> set (take i ss) then TYPE_SYMLINK # pl (int (sym_id ss s))
         else TYPE_SYMBOL # pl (int (length s)) @ str_bytes s)"

text \<open>
  The bignum of section 3: the tag, the sign byte, the packed long of the number of
  16-bit words, and the payload: the bytes of the magnitude, least significant first, in
  the least number of bytes that holds it, with one zero byte added when that number is odd.
\<close>

function byte_len :: "nat \<Rightarrow> nat" where
  "byte_len a = (if a = 0 then 0 else Suc (byte_len (a div 256)))"
  by pat_completeness auto
termination
  by (relation "measure (\<lambda>a. a)") auto

definition nat_le_bytes :: "nat \<Rightarrow> nat \<Rightarrow> byte list" where
  "nat_le_bytes k a = map (\<lambda>i. of_nat (a div 256 ^ i)) [0..<k]"

definition bignum_payload :: "nat \<Rightarrow> byte list" where
  "bignum_payload a =
     (let bs = nat_le_bytes (byte_len a) a in if odd (length bs) then bs @ [0] else bs)"

definition bignum_wire :: "int \<Rightarrow> byte list" where
  "bignum_wire n =
     [TYPE_BIGNUM, if n < 0 then 0x2D else 0x2B]
     @ pl (int (length (bignum_payload (nat \<bar>n\<bar>)) div 2))
     @ bignum_payload (nat \<bar>n\<bar>)"

text \<open>The number a little-endian byte sequence stands for.\<close>

fun le_val :: "byte list \<Rightarrow> nat" where
  "le_val [] = 0"
| "le_val (b # bs) = unat b + 256 * le_val bs"

section \<open>Observing the generator\<close>

text \<open>
  \<open>pending\<close> is the filled part of the scratch buffer, \<open>stream\<close> everything emitted so far:
  what the sink has received followed by what is pending. A flush moves the pending bytes
  to the sink and leaves \<open>stream\<close> as it is. \<open>live\<close> is the symbol table in use,
  \<open>symTbl[0..symCount)\<close>. \<open>symbols\<close> calls \<open>Symbol\<close> for each string of a list in turn.
\<close>

definition pending :: "Generator \<Rightarrow> byte list" where
  "pending g = take (g_bufn g) (g_buf g)"

definition stream :: "Generator \<Rightarrow> byte list" where
  "stream g = g_w g @ pending g"

definition live :: "Generator \<Rightarrow> string list" where
  "live g = take (g_symCount g) (g_symTbl g)"

fun symbols :: "nat \<Rightarrow> string list \<Rightarrow> Generator \<Rightarrow> gres" where
  "symbols grow [] g = Ok () g"
| "symbols grow (s # ss) g = andThen (Symbol grow s g) (symbols grow ss)"

text \<open>
  Three relations between the generator before and after a step, used in the proofs:
  \<open>appended\<close>, the step added \<open>bs\<close> to the pending bytes within the buffer as it was;
  \<open>reserved\<close>, the step made room for \<open>sz\<close> more bytes; \<open>emitted\<close>, the step added \<open>bs\<close>,
  possibly growing the buffer. All of them leave sink, frames and symbol table alone.
\<close>

definition appended :: "Generator \<Rightarrow> byte list \<Rightarrow> Generator \<Rightarrow> bool" where
  "appended g bs g' =
     (pending g' = pending g @ bs \<and> g_bufn g' = g_bufn g + length bs
      \<and> length (g_buf g') = length (g_buf g) \<and> g_w g' = g_w g \<and> g_c g' = g_c g
      \<and> g_st g' = g_st g \<and> g_symCount g' = g_symCount g \<and> g_symTbl g' = g_symTbl g)"

definition reserved :: "Generator \<Rightarrow> nat \<Rightarrow> Generator \<Rightarrow> bool" where
  "reserved g sz g' =
     (pending g' = pending g \<and> g_bufn g' = g_bufn g \<and> g_bufn g + sz \<le> length (g_buf g')
      \<and> g_w g' = g_w g \<and> g_c g' = g_c g \<and> g_st g' = g_st g
      \<and> g_symCount g' = g_symCount g \<and> g_symTbl g' = g_symTbl g)"

definition emitted :: "Generator \<Rightarrow> byte list \<Rightarrow> Generator \<Rightarrow> bool" where
  "emitted g bs g' =
     (pending g' = pending g @ bs \<and> g_bufn g' \<le> length (g_buf g')
      \<and> g_w g' = g_w g \<and> g_c g' = g_c g \<and> g_st g' = g_st g
      \<and> g_symCount g' = g_symCount g \<and> g_symTbl g' = g_symTbl g)"

text \<open>The bytes of one machine word, least significant first.\<close>

definition word_bytes :: "nat \<Rightarrow> 64 word \<Rightarrow> byte list" where
  "word_bytes m d = map (\<lambda>i. ucast (drop_bit (8 * i) d)) [0..<m]"

text \<open>
  Two more states: the generator as \<open>NewGenerator\<close> returns it, and the one after
  \<open>StartArray(4)\<close> on it.
\<close>

definition gen_fresh :: Generator where
  "gen_fresh =
     \<lparr>g_w = [], g_c = 0, g_st = [\<lparr>i_cnt = 1, i_pos = 0, i_typ = genStTop\<rparr>],
      g_buf = [0x04, 0x08] @ replicate 126 0, g_bufn = 2, g_symCount = 0, g_symTbl = []\<rparr>"

definition gen_array4 :: Generator where
  "gen_array4 =
     \<lparr>g_w = [], g_c = 0,
      g_st = [\<lparr>i_cnt = 4, i_pos = 0, i_typ = genStArr\<rparr>, \<lparr>i_cnt = 1, i_pos = 0, i_typ = genStTop\<rparr>],
      g_buf = [0x04, 0x08, 0x5B, 0x09] @ replicate 124 0, g_bufn = 4,
      g_symCount = 0, g_symTbl = []\<rparr>"

text \<open>
  Driving the generator through a whole stream. A \<open>gop\<close> is any call a user can make: a
  value-writing call, \<open>EndArray\<close>, \<open>EndHash\<close> or \<open>Reset\<close>. \<open>run\<close> makes the calls of a list in
  turn, as long as each returns normally. \<open>stream_syms\<close> lists the strings of the \<open>Symbol\<close>
  calls of a call sequence that belong to the stream being written, which starts afresh
  with \<open>Reset\<close>.
\<close>

datatype gop = Write gcall | OpEndArray | OpEndHash | OpReset

fun step :: "nat \<Rightarrow> gop \<Rightarrow> Generator \<Rightarrow> gres" where
  "step grow (Write c) g = call grow c g"
| "step grow OpEndArray g = EndArray g"
| "step grow OpEndHash g = EndHash g"
| "step grow OpReset g = Reset g"

fun run :: "nat \<Rightarrow> gop list \<Rightarrow> Generator \<Rightarrow> gres" where
  "run grow [] g = Ok () g"
| "run grow (c # cs) g = andThen (step grow c g) (run grow cs)"

fun syms_from :: "string list \<Rightarrow> gop list \<Rightarrow> string list" where
  "syms_from acc [] = acc"
| "syms_from acc (Write (CallSymbol s) # cs) = syms_from (acc @ [s]) cs"
| "syms_from acc (OpReset # cs) = syms_from [] cs"
| "syms_from acc (c # cs) = syms_from acc cs"

definition stream_syms :: "gop list \<Rightarrow> string list" where
  "stream_syms cs = syms_from [] cs"

text \<open>
  The text \<open>strconv.AppendFloat\<close> produces has at most 30 bytes, as the comment in
  \<open>Generator.Float\<close> says; \<open>op_ok\<close> holds of a call unless it is a \<open>Float\<close> with a longer text.
\<close>

fun op_ok :: "gop \<Rightarrow> bool" where
  "op_ok (Write (CallFloat repr)) = (length repr \<le> 30)"
| "op_ok c = True"

text \<open>
  What holds of the buffer and the symbol table in every state the calls reach from
  \<open>NewGenerator\<close>: the fill mark lies within the buffer, the buffer holds the two magic
  bytes at least, and the symbols in use lie within the table slice.
\<close>

definition gen_inv :: "Generator \<Rightarrow> bool" where
  "gen_inv g = (g_bufn g \<le> length (g_buf g) \<and> 2 \<le> length (g_buf g)
                \<and> g_symCount g \<le> length (g_symTbl g))"

text \<open>
  Three more relations between the generator before and after a step that returned
  normally: \<open>same_syms\<close>, the symbol table and its count are untouched; \<open>safe\<close>, moreover the
  buffer kept its length and the fill mark stayed within it; \<open>keeps\<close>, the table is
  untouched, the buffer did not shrink and the fill mark lies within it.
\<close>

definition same_syms :: "Generator \<Rightarrow> Generator \<Rightarrow> bool" where
  "same_syms g g' = (g_symCount g' = g_symCount g \<and> g_symTbl g' = g_symTbl g)"

definition safe :: "Generator \<Rightarrow> Generator \<Rightarrow> bool" where
  "safe g g' = ((g_bufn g \<le> length (g_buf g) \<longrightarrow> g_bufn g' \<le> length (g_buf g'))
               \<and> length (g_buf g') = length (g_buf g) \<and> same_syms g g')"

definition keeps :: "Generator \<Rightarrow> Generator \<Rightarrow> bool" where
  "keeps g g' = (g_bufn g' \<le> length (g_buf g') \<and> length (g_buf g) \<le> length (g_buf g')
                 \<and> same_syms g g')"

text \<open>
  The state after \<open>NewGenerator\<close>, \<open>StartArray(2)\<close>, \<open>Symbol("foo")\<close> and \<open>StartArray(1)\<close> with a
  table growth step of 8: inside the inner array of \<open>[:foo, [...]]\<close>.
\<close>

definition gen_nested :: Generator where
  "gen_nested =
     \<lparr>g_w = [], g_c = 0,
      g_st = [\<lparr>i_cnt = 1, i_pos = 0, i_typ = genStArr\<rparr>, \<lparr>i_cnt = 2, i_pos = 1, i_typ = genStArr\<rparr>,
              \<lparr>i_cnt = 1, i_pos = 0, i_typ = genStTop\<rparr>],
      g_buf = [0x04, 0x08, 0x5B, 0x07, 0x3A, 0x08, 0x66, 0x6F, 0x6F, 0x5B, 0x06] @ replicate 117 0,
      g_bufn = 11, g_symCount = 1, g_symTbl = ''foo'' # replicate 7 []\<rparr>"

section \<open>The parser\<close>

datatype Token =
    tokenStart
  | TokenNil
  | TokenTrue
  | TokenFalse
  | TokenFixnum
  | TokenFloat
  | TokenBignum
  | TokenSymbol
  | TokenString
  | TokenStartArray
  | TokenEndArray
  | TokenStartHash
  | TokenEndHash
  | TokenStartIVar
  | TokenEndIVar
  | TokenLink
  | TokenEOF

datatype ctxTyp = ctxArray | ctxHash | ctxIVar

record parserContext =
  c_typ :: ctxTyp
  c_sz :: int
  c_pos :: int
  ivSym :: "byte list option"

record rng =
  r_beg :: int
  r_end :: int

text \<open>
  Errors of the parser: \<open>io.ErrUnexpectedEOF\<close>, the three \<open>errors.Errorf\<close> messages (bad
  magic, symlink id too large, a non-symbol where an instance variable name is due), and
  \<open>errors.Wrap\<close> with its context string.
\<close>

datatype perror =
    ErrUnexpectedEOF
  | ErrMagic byte byte
  | ErrSymlinkTooLarge int int
  | ErrIVarToken Token
  | Wrap string perror

text \<open>
  The parser. \<open>p_r\<close> is the reader: the bytes it has not handed out yet. \<open>p_st\<close> holds the
  live contexts \<open>st[0..stSz)\<close>, innermost first, so its head is \<open>*cst\<close> and the empty list
  stands for \<open>cst == nil\<close>. \<open>p_buf\<close> is the whole read buffer, including the bytes behind the
  write position \<open>p_pos\<close>. The range tables are the slices themselves; \<open>rngTbl.add\<close> appends.
  Positions and sizes are Go \<open>int\<close>s (64 bits); they are modelled as unbounded integers
  except where the code shifts or doubles a decoded value, where the 64-bit result is
  computed on \<open>64 word\<close>.
\<close>

record Parser =
  p_r :: "byte list"
  p_cur :: Token
  p_st :: "parserContext list"
  p_buf :: "byte list"
  p_pos :: int
  p_ctx :: rng
  p_num :: int
  p_bnumsign :: byte
  p_symTbl :: "rng list"
  p_lnkTbl :: "rng list"

type_synonym 'a pres = "(perror, 'a, Parser) res"

text \<open>
  \<open>fill\<close>, \<open>long\<close> and \<open>sizedBlob\<close> have named results \<open>(v, err)\<close> and hand back both:
  \<open>Err (e, v)\<close> is the return of the error \<open>e\<close> together with the value \<open>v\<close> holds at that
  \<open>return\<close>. A caller that assigns to a field before it tests the error, as in
  \<open>p.num, err = p.long()\<close>, stores that value.
\<close>

type_synonym 'a nres = "(perror \<times> 'a, 'a, Parser) res"

definition bufInitSz :: nat where "bufInitSz = 256"

definition NewParser :: "byte list \<Rightarrow> Parser" where
  "NewParser input =
     \<lparr>p_r = input, p_cur = tokenStart, p_st = [], p_buf = replicate bufInitSz 0, p_pos = 0,
      p_ctx = \<lparr>r_beg = 0, r_end = 0\<rparr>, p_num = 0, p_bnumsign = 0,
      p_symTbl = [], p_lnkTbl = []\<rparr>"

text \<open>\<open>p.buf[i]\<close> and \<open>p.buf[b:e]\<close>, with Go's bounds checks.\<close>

definition buf_at :: "byte list \<Rightarrow> int \<Rightarrow> byte option" where
  "buf_at b i = (if 0 \<le> i \<and> i < int (length b) then Some (b ! nat i) else None)"

definition buf_slice :: "byte list \<Rightarrow> int \<Rightarrow> int \<Rightarrow> byte list option" where
  "buf_slice b lo hi =
     (if 0 \<le> lo \<and> lo \<le> hi \<and> hi \<le> int (length b)
      then Some (take (nat (hi - lo)) (drop (nat lo) b)) else None)"

text \<open>\<open>copy(b[i:], xs)\<close> for an \<open>xs\<close> that fits: the bytes of \<open>b\<close> from index \<open>i\<close> are replaced.\<close>

definition overwrite :: "byte list \<Rightarrow> nat \<Rightarrow> byte list \<Rightarrow> byte list" where
  "overwrite b i xs = take i b @ xs @ drop (i + length xs) b"

definition wrapErr :: "string \<Rightarrow> 'a pres \<Rightarrow> 'a pres" where
  "wrapErr msg r = (case r of Err e s \<Rightarrow> Err (Wrap msg e) s | Ok a s \<Rightarrow> Ok a s | Panic k \<Rightarrow> Panic k)"

text \<open>The value of a Go \<open>int\<close> expression after 64-bit wrap-around.\<close>

definition wrap_int :: "int \<Rightarrow> int" where
  "wrap_int x = sint (word_of_int x :: 64 word)"

text \<open>
  \<open>Parser.fill\<close>. The reader is an in-memory byte source: \<open>Read(dst)\<close> hands over
  \<open>min(len(dst), remaining)\<close> bytes, and \<open>(0, io.EOF)\<close> once nothing remains. The loop
  \<open>for rd < num && err == nil\<close> is \<open>fill_loop\<close>; throughout it \<open>p.pos = r.beg + rd\<close>, so the
  slice \<open>p.buf[p.pos:r.end]\<close> it reads into has length \<open>num - rd\<close>. A final \<open>io.EOF\<close> is
  turned into \<open>io.ErrUnexpectedEOF\<close>; the range \<open>r\<close> is returned with it.
\<close>

function fill_loop :: "int \<Rightarrow> int \<Rightarrow> rng \<Rightarrow> Parser \<Rightarrow> rng nres" where
  "fill_loop rd num r p =
     (if rd < num then
        (if 0 \<le> p_pos p \<and> p_pos p \<le> r_end r \<and> r_end r \<le> int (length (p_buf p)) then
           (if p_r p = [] then Err (ErrUnexpectedEOF, r) p
            else
              (let n = min (nat (num - rd)) (length (p_r p));
                   p' = p\<lparr>p_buf := overwrite (p_buf p) (nat (p_pos p)) (take n (p_r p)),
                          p_pos := p_pos p + int n,
                          p_r := drop n (p_r p)\<rparr>
               in fill_loop (rd + int n) num r p'))
         else Panic SliceBounds)
      else Ok r p)"
  by pat_completeness auto
termination
  by (relation "measure (\<lambda>(rd, num, r, p). nat (num - rd))") auto

definition fill :: "int \<Rightarrow> Parser \<Rightarrow> rng nres" where
  "fill num p =
     (let r = \<lparr>r_beg = p_pos p, r_end = p_pos p + num\<rparr>;
          p1 = (if r_end r > int (length (p_buf p))
                then p\<lparr>p_buf := p_buf p @ replicate (length (p_buf p)) 0\<rparr> else p)
      in fill_loop 0 num r p1)"

text \<open>
  The two payload loops of \<open>Parser.long\<close>, \<open>for r.beg <= r.end { ... i++; r.beg++ }\<close>.
  The accumulator \<open>n\<close> is a 64-bit \<open>int\<close>; a shift by 64 or more gives 0.
\<close>

function long_pos_loop :: "int \<Rightarrow> int \<Rightarrow> nat \<Rightarrow> 64 word \<Rightarrow> byte list \<Rightarrow> 64 word option" where
  "long_pos_loop b e i n buf =
     (if b \<le> e then
        (case buf_at buf b of
           None \<Rightarrow> None
         | Some x \<Rightarrow> long_pos_loop (b + 1) e (i + 1) (n OR push_bit (8 * i) (ucast x)) buf)
      else Some n)"
  by pat_completeness auto
termination
  by (relation "measure (\<lambda>(b, e, i, n, buf). nat (e + 1 - b))") auto

function long_neg_loop :: "int \<Rightarrow> int \<Rightarrow> nat \<Rightarrow> 64 word \<Rightarrow> byte list \<Rightarrow> 64 word option" where
  "long_neg_loop b e i n buf =
     (if b \<le> e then
        (case buf_at buf b of
           None \<Rightarrow> None
         | Some x \<Rightarrow>
             long_neg_loop (b + 1) e (i + 1)
               ((n AND NOT (push_bit (8 * i) 0xff)) OR push_bit (8 * i) (ucast x)) buf)
      else Some n)"
  by pat_completeness auto
termination
  by (relation "measure (\<lambda>(b, e, i, n, buf). nat (e + 1 - b))") auto

text \<open>
  \<open>Parser.long\<close>. The first byte is read as \<open>int(p.buf[p.pos-1])\<close>, the conversion of an
  unsigned byte. When the first \<open>fill\<close> fails \<open>n\<close> is still 0; when the second one fails
  \<open>n\<close> holds the first byte.
\<close>

definition long :: "Parser \<Rightarrow> int nres" where
  "long p =
     (case fill 1 p of
        Panic k \<Rightarrow> Panic k
      | Err (e, _) p \<Rightarrow> Err (e, 0) p
      | Ok _ p \<Rightarrow>
          (case buf_at (p_buf p) (p_pos p - 1) of
             None \<Rightarrow> Panic IndexOutOfRange
           | Some c \<Rightarrow>
               (let n = uint c
                in if n = 0 then Ok n p
                   else if 4 < n \<and> n < 128 then Ok (n - 5) p
                   else if - 129 < n \<and> n < - 4 then Ok (n + 5) p
                   else if n > 0 then
                     (case fill n p of
                        Panic k \<Rightarrow> Panic k
                      | Err (e, _) p \<Rightarrow> Err (e, n) p
                      | Ok r p \<Rightarrow>
                          (case long_pos_loop (r_beg r) (r_end r) 0 0 (p_buf p) of
                             None \<Rightarrow> Panic IndexOutOfRange
                           | Some v \<Rightarrow> Ok (sint v) p))
                   else
                     (case fill (- n) p of
                        Panic k \<Rightarrow> Panic k
                      | Err (e, _) p \<Rightarrow> Err (e, n) p
                      | Ok r p \<Rightarrow>
                          (case long_neg_loop (r_beg r) (r_end r) 0 (- 1) (p_buf p) of
                             None \<Rightarrow> Panic IndexOutOfRange
                           | Some v \<Rightarrow> Ok (sint v) p)))))"

text \<open>
  \<open>Parser.sizedBlob\<close>: a packed long (doubled for a bignum), then that many bytes. When
  \<open>long\<close> fails the range \<open>r\<close> is still the zero range.
\<close>

definition sizedBlob :: "bool \<Rightarrow> Parser \<Rightarrow> rng nres" where
  "sizedBlob bnum p =
     (case long p of
        Panic k \<Rightarrow> Panic k
      | Err (e, _) p \<Rightarrow> Err (e, \<lparr>r_beg = 0, r_end = 0\<rparr>) p
      | Ok sz p \<Rightarrow> fill (if bnum then wrap_int (sz * 2) else sz) p)"

text \<open>
  \<open>Parser.pushStack\<close> and \<open>Parser.popStack\<close>. A pushed context starts at position -1; a
  pop advances the context that becomes current.
\<close>

definition pushStack :: "ctxTyp \<Rightarrow> int \<Rightarrow> Parser \<Rightarrow> Parser" where
  "pushStack t sz p = p\<lparr>p_st := \<lparr>c_typ = t, c_sz = sz, c_pos = - 1, ivSym = None\<rparr> # p_st p\<rparr>"

definition popStack :: "Parser \<Rightarrow> Parser" where
  "popStack p =
     (case tl (p_st p) of
        [] \<Rightarrow> p\<lparr>p_st := []\<rparr>
      | c # cs \<Rightarrow> p\<lparr>p_st := c\<lparr>c_pos := c_pos c + 1\<rparr> # cs\<rparr>)"

text \<open>
  The \<open>switch p.buf[r.beg]\<close> of \<open>Parser.adv\<close>, in the order of its cases. There is no
  default case: an unlisted tag leaves the parser as it is. The fixnum and link cases
  assign \<open>p.num\<close>, and the float, bignum, symbol and string cases \<open>p.ctx\<close>, before the error
  is tested; the symlink, array and hash cases read into a local variable.
\<close>

definition adv_switch :: "rng \<Rightarrow> Parser \<Rightarrow> unit pres" where
  "adv_switch r p =
     (case buf_at (p_buf p) (r_beg r) of
        None \<Rightarrow> Panic IndexOutOfRange
      | Some t \<Rightarrow>
          if t = TYPE_NIL then Ok () (p\<lparr>p_cur := TokenNil\<rparr>)
          else if t = TYPE_TRUE then Ok () (p\<lparr>p_cur := TokenTrue\<rparr>)
          else if t = TYPE_FALSE then Ok () (p\<lparr>p_cur := TokenFalse\<rparr>)
          else if t = TYPE_FIXNUM then
            (case long (p\<lparr>p_cur := TokenFixnum\<rparr>) of
               Panic k \<Rightarrow> Panic k
             | Err (e, n) p \<Rightarrow> Err (Wrap ''fixnum'' e) (p\<lparr>p_num := n\<rparr>)
             | Ok n p \<Rightarrow> Ok () (p\<lparr>p_num := n\<rparr>))
          else if t = TYPE_FLOAT then
            (case sizedBlob False (p\<lparr>p_cur := TokenFloat\<rparr>) of
               Panic k \<Rightarrow> Panic k
             | Err (e, c) p \<Rightarrow> Err (Wrap ''float'' e) (p\<lparr>p_ctx := c\<rparr>)
             | Ok c p \<Rightarrow>
                 Ok () (p\<lparr>p_ctx := c, p_lnkTbl := p_lnkTbl p @ [r\<lparr>r_end := p_pos p\<rparr>]\<rparr>))
          else if t = TYPE_BIGNUM then
            (case fill 1 (p\<lparr>p_cur := TokenBignum\<rparr>) of
               Panic k \<Rightarrow> Panic k
             | Err (e, _) p \<Rightarrow> Err (Wrap ''bignum'' e) p
             | Ok r' p \<Rightarrow>
                 (case buf_at (p_buf p) (r_beg r') of
                    None \<Rightarrow> Panic IndexOutOfRange
                  | Some sb \<Rightarrow>
                      (case sizedBlob True (p\<lparr>p_bnumsign := sb\<rparr>) of
                         Panic k \<Rightarrow> Panic k
                       | Err (e, c) p \<Rightarrow> Err (Wrap ''bignum'' e) (p\<lparr>p_ctx := c\<rparr>)
                       | Ok c p \<Rightarrow> Ok () (p\<lparr>p_ctx := c\<rparr>))))
          else if t = TYPE_SYMBOL then
            (case sizedBlob False (p\<lparr>p_cur := TokenSymbol\<rparr>) of
               Panic k \<Rightarrow> Panic k
             | Err (e, c) p \<Rightarrow> Err (Wrap ''symbol'' e) (p\<lparr>p_ctx := c\<rparr>)
             | Ok c p \<Rightarrow> Ok () (p\<lparr>p_ctx := c, p_symTbl := p_symTbl p @ [c]\<rparr>))
          else if t = TYPE_STRING then
            (case sizedBlob False (p\<lparr>p_cur := TokenString\<rparr>) of
               Panic k \<Rightarrow> Panic k
             | Err (e, c) p \<Rightarrow> Err (Wrap ''string'' e) (p\<lparr>p_ctx := c\<rparr>)
             | Ok c p \<Rightarrow> Ok () (p\<lparr>p_ctx := c\<rparr>))
          else if t = TYPE_SYMLINK then
            (case long (p\<lparr>p_cur := TokenSymbol\<rparr>) of
               Panic k \<Rightarrow> Panic k
             | Err (e, _) p \<Rightarrow> Err (Wrap ''symlink id'' e) p
             | Ok n p \<Rightarrow>
                 (let id = n
                  in if id \<ge> int (length (p_symTbl p))
                     then Err (ErrSymlinkTooLarge id (int (length (p_symTbl p)) - 1)) p
                     else if 0 \<le> id then Ok () (p\<lparr>p_ctx := p_symTbl p ! nat id\<rparr>)
                     else Panic IndexOutOfRange))
          else if t = TYPE_ARRAY then
            (case long (p\<lparr>p_cur := TokenStartArray\<rparr>) of
               Panic k \<Rightarrow> Panic k
             | Err (e, _) p \<Rightarrow> Err (Wrap ''array'' e) p
             | Ok n p \<Rightarrow>
                 (let p1 = pushStack ctxArray n p
                  in Ok () (p1\<lparr>p_lnkTbl := p_lnkTbl p1 @ [r]\<rparr>)))
          else if t = TYPE_HASH then
            (case long (p\<lparr>p_cur := TokenStartHash\<rparr>) of
               Panic k \<Rightarrow> Panic k
             | Err (e, _) p \<Rightarrow> Err (Wrap ''hash'' e) p
             | Ok n p \<Rightarrow> Ok () (pushStack ctxHash (wrap_int (n * 2)) p))
          else if t = TYPE_IVAR then
            Ok () (pushStack ctxIVar (- 1) (p\<lparr>p_cur := TokenStartIVar\<rparr>))
          else if t = TYPE_LINK then
            (case long (p\<lparr>p_cur := TokenLink\<rparr>) of
               Panic k \<Rightarrow> Panic k
             | Err (e, n) p \<Rightarrow> Err (Wrap ''link'' e) (p\<lparr>p_num := n\<rparr>)
             | Ok n p \<Rightarrow> Ok () (p\<lparr>p_num := n\<rparr>))
          else Ok () p)"

text \<open>
  \<open>Parser.adv\<close>. The first call reads three bytes, checks the magic and takes the type
  byte at index 2. Every later call reads one byte for the type; when that read ends in
  \<open>io.ErrUnexpectedEOF\<close> the current token becomes \<open>TokenEOF\<close> and the call returns without
  error.
\<close>

definition adv :: "Parser \<Rightarrow> unit pres" where
  "adv p =
     (if p_cur p = tokenStart then
        (case fill 3 p of
           Panic k \<Rightarrow> Panic k
         | Err (e, _) p \<Rightarrow> Err (Wrap ''reading magic'' e) p
         | Ok _ p \<Rightarrow>
             (case (buf_at (p_buf p) 0, buf_at (p_buf p) 1) of
                (Some m0, Some m1) \<Rightarrow>
                  if m0 \<noteq> 0x04 \<or> m1 \<noteq> 0x08 then Err (ErrMagic m0 m1) p
                  else adv_switch \<lparr>r_beg = 2, r_end = 0\<rparr> p
              | _ \<Rightarrow> Panic IndexOutOfRange))
      else
        (let r = \<lparr>r_beg = p_pos p, r_end = 0\<rparr>
         in case fill 1 p of
              Err (e, _) p' \<Rightarrow>
                if e = ErrUnexpectedEOF then Ok () (p'\<lparr>p_cur := TokenEOF\<rparr>)
                else Err (Wrap ''read type id'' e) p'
            | Panic k \<Rightarrow> Panic k
            | Ok _ p' \<Rightarrow> adv_switch r p'))"

text \<open>
  \<open>Parser.advIVar\<close>: close the IVar when all variables are read; otherwise read the name
  (it must be a symbol) and then the value, whose token is returned.
\<close>

definition advIVar :: "Parser \<Rightarrow> Token pres" where
  "advIVar p =
     (case p_st p of
        [] \<Rightarrow> Panic NilDereference
      | c # cs \<Rightarrow>
          if c_pos c = c_sz c then
            (let p1 = popStack (p\<lparr>p_cur := TokenEndIVar\<rparr>) in Ok (p_cur p1) p1)
          else
            bind (adv (p\<lparr>p_st := c\<lparr>c_pos := c_pos c + 1\<rparr> # cs\<rparr>)) (\<lambda>_ p.
              if p_cur p \<noteq> TokenSymbol then Err (ErrIVarToken (p_cur p)) p
              else
                (case (buf_slice (p_buf p) (r_beg (p_ctx p)) (r_end (p_ctx p)), p_st p) of
                   (Some name, c' # cs') \<Rightarrow>
                     bind (adv (p\<lparr>p_st := c'\<lparr>ivSym := Some name\<rparr> # cs'\<rparr>)) (\<lambda>_ p.
                       Ok (p_cur p) p)
                 | (None, _) \<Rightarrow> Panic SliceBounds
                 | (_, []) \<Rightarrow> Panic NilDereference)))"

text \<open>\<open>Parser.Next\<close>. \<open>Next_adv\<close> is its tail: \<open>adv\<close>, then advance the current context.\<close>

definition Next_adv :: "Parser \<Rightarrow> Token pres" where
  "Next_adv p =
     bind (wrapErr ''rmarsh.Parser.Next()'' (adv p)) (\<lambda>_ p.
       (let p1 = (case p_st p of
                    [] \<Rightarrow> p
                  | c # cs \<Rightarrow> p\<lparr>p_st := c\<lparr>c_pos := c_pos c + 1\<rparr> # cs\<rparr>)
        in Ok (p_cur p1) p1))"

definition Next :: "Parser \<Rightarrow> Token pres" where
  "Next p =
     (case p_st p of
        [] \<Rightarrow> Next_adv p
      | c # cs \<Rightarrow>
          if c_typ c = ctxIVar then
            (if c_sz c > 0 then advIVar p
             else if c_sz c < 0 then Next_adv (p\<lparr>p_st := c\<lparr>c_sz := 0\<rparr> # cs\<rparr>)
             else
               (case long p of
                  Panic k \<Rightarrow> Panic k
                | Err (e, _) p \<Rightarrow> Err (Wrap ''ivar'' e) p
                | Ok n p \<Rightarrow>
                    (case p_st p of
                       [] \<Rightarrow> Panic NilDereference
                     | c' # cs' \<Rightarrow> advIVar (p\<lparr>p_st := c'\<lparr>c_pos := 0, c_sz := n\<rparr> # cs'\<rparr>))))
          else if c_pos c = c_sz c then
            (let p1 = (case c_typ c of
                         ctxArray \<Rightarrow> p\<lparr>p_cur := TokenEndArray\<rparr>
                       | ctxHash \<Rightarrow> p\<lparr>p_cur := TokenEndHash\<rparr>
                       | ctxIVar \<Rightarrow> p);
                 p2 = popStack p1
             in Ok (p_cur p2) p2)
          else Next_adv p)"

text \<open>\<open>Parser.LinkId\<close>.\<close>

definition LinkId :: "Parser \<Rightarrow> int" where
  "LinkId p =
     (case p_cur p of
        TokenLink \<Rightarrow> p_num p
      | TokenFloat \<Rightarrow> int (length (p_lnkTbl p)) - 1
      | TokenStartArray \<Rightarrow> int (length (p_lnkTbl p)) - 1
      | _ \<Rightarrow> - 1)"

text \<open>
  Driving the parser: \<open>tokens k p\<close> calls \<open>Next\<close> up to \<open>k\<close> times and lists what each call
  returned, stopping after the first call that does not return normally.
\<close>

datatype outcome = Tok Token | Failed perror | Panicked panic

fun tokens :: "nat \<Rightarrow> Parser \<Rightarrow> outcome list" where
  "tokens 0 p = []"
| "tokens (Suc k) p =
     (case Next p of
        Ok t p' \<Rightarrow> Tok t # tokens k p'
      | Err e _ \<Rightarrow> [Failed e]
      | Panic x \<Rightarrow> [Panicked x])"

text \<open>The parser after \<open>k\<close> successful calls of \<open>Next\<close> (\<open>None\<close> if one of them failed).\<close>

fun after_n :: "nat \<Rightarrow> Parser \<Rightarrow> Parser option" where
  "after_n 0 p = Some p"
| "after_n (Suc k) p =
     (case Next p of Ok _ p' \<Rightarrow> after_n k p' | Err _ _ \<Rightarrow> None | Panic _ \<Rightarrow> None)"

text \<open>
  The bytes \<open>encodeLong\<close> leaves in an empty scratch buffer, and what a call returned,
  without the state.
\<close>

definition packed :: "int \<Rightarrow> byte list option" where
  "packed n =
     (case encodeLong n \<lparr>g_w = [], g_c = 0, g_st = [], g_buf = replicate 8 0, g_bufn = 0,
                          g_symCount = 0, g_symTbl = []\<rparr> of
        Ok _ g \<Rightarrow> Some (take (g_bufn g) (g_buf g))
      | Err _ _ \<Rightarrow> None
      | Panic _ \<Rightarrow> None)"

definition returned :: "('e, 'a, 's) res \<Rightarrow> ('e + 'a) option" where
  "returned r = (case r of Ok a _ \<Rightarrow> Some (Inr a) | Err e _ \<Rightarrow> Some (Inl e) | Panic _ \<Rightarrow> None)"

section \<open>Properties of the generator\<close>

declare symScan.simps [simp del] encodeLong_loop.simps [simp del] fill_loop.simps [simp del]
  byte_len.simps [simp del]
  long_pos_loop.simps [simp del] long_neg_loop.simps [simp del]

lemma bind_simps [simp]:
  "bind (Ok a s) f = f a s"
  "bind (Err e s) f = Err e s"
  "bind (Panic k) f = Panic k"
  by (simp_all add: bind_def)

lemma andThen_simps [simp]:
  "andThen (Ok a s) f = f s"
  "andThen (Err e s) f = Err e s"
  "andThen (Panic k) f = Panic k"
  by (simp_all add: andThen_def)

lemma gen_open_array_reached: "andThen NewGenerator (StartArray 0) = Ok () gen_open_array"
  by code_simp

lemma frames_ok_top: "frames_ok (cur # rest) \<Longrightarrow> (rest = []) = (i_typ cur = genStTop)"
  by (cases rest) auto

subsection \<open>Writing into a full frame\<close>

lemma checkState_full:
  "g_st g = cur # rest \<Longrightarrow> i_pos cur = i_cnt cur \<Longrightarrow>
   checkState sz g = Err (if rest = [] then ErrGeneratorFinished else ErrGeneratorOverflow) g"
  by (simp add: checkState_def)

lemma symScan_no_panic:
  "n \<le> length tbl \<Longrightarrow> symScan i n tbl s \<noteq> ScanPanic"
  by (induction i n tbl s rule: symScan.induct) (subst symScan.simps, simp)

text \<open>
  C7. When the current frame is full (its position equals its declared size), every
  value-writing call fails: with \<open>ErrGeneratorFinished\<close> when the full frame is the synthetic
  top frame, with \<open>ErrGeneratorOverflow\<close> when it is an array or hash frame. The call leaves
  the sink, the scratch buffer, its fill mark and the frame stack as they were, so no byte
  of the rejected value is emitted.
\<close>

theorem full_frame_rejects:
  assumes "frames_ok (g_st g)" and "g_st g = cur # rest" and "i_pos cur = i_cnt cur"
    and "g_symCount g \<le> length (g_symTbl g)"
  shows "\<exists>g'. call grow c g =
            Err (if i_typ cur = genStTop then ErrGeneratorFinished else ErrGeneratorOverflow) g'
          \<and> g_w g' = g_w g \<and> g_buf g' = g_buf g \<and> g_bufn g' = g_bufn g \<and> g_st g' = g_st g"
proof -
  have top: "(rest = []) = (i_typ cur = genStTop)"
    using assms(1,2) frames_ok_top by simp
  have cs: "\<And>sz h. g_st h = g_st g \<Longrightarrow> checkState sz h =
      Err (if i_typ cur = genStTop then ErrGeneratorFinished else ErrGeneratorOverflow) h"
    using checkState_full [OF _ assms(3)] assms(2) top by simp
  show ?thesis
  proof (cases c)
    case (CallSymbol s)
    let ?g = "if length (g_symTbl g) = 0 \<or> length (g_symTbl g) = g_symCount g
               then g\<lparr>g_symTbl := g_symTbl g @ replicate grow []\<rparr> else g"
    have st: "g_st ?g = g_st g" by simp
    have "g_symCount ?g \<le> length (g_symTbl ?g)" using assms(4) by simp
    then have np: "symScan 0 (g_symCount ?g) (g_symTbl ?g) s \<noteq> ScanPanic"
      by (rule symScan_no_panic)
    have "Symbol grow s g =
        Err (if i_typ cur = genStTop then ErrGeneratorFinished else ErrGeneratorOverflow) ?g"
      using np cs [OF st]
      unfolding Symbol_def Let_def
      by (cases "symScan 0 (g_symCount ?g) (g_symTbl ?g) s") simp_all
    then show ?thesis using CallSymbol by (intro exI [of _ ?g]) simp
  next
    case (CallFixnum n)
    then show ?thesis using cs [of g]
      by (intro exI [of _ g]) (simp add: Fixnum_def Bignum_def Let_def)
  next
    case CallNil
    then show ?thesis using cs [of g] by (intro exI [of _ g]) (simp add: Nil_val_def)
  next
    case (CallBool b)
    then show ?thesis using cs [of g] by (intro exI [of _ g]) (simp add: Bool_def)
  next
    case (CallBignum b)
    then show ?thesis using cs [of g] by (intro exI [of _ g]) (simp add: Bignum_def Let_def)
  next
    case (CallString s)
    then show ?thesis using cs [of g]
      by (intro exI [of _ g]) (simp add: String_def sized_def Let_def)
  next
    case (CallClass s)
    then show ?thesis using cs [of g]
      by (intro exI [of _ g]) (simp add: Class_def sized_def Let_def)
  next
    case (CallModule s)
    then show ?thesis using cs [of g]
      by (intro exI [of _ g]) (simp add: Module_def sized_def Let_def)
  next
    case (CallFloat r)
    then show ?thesis using cs [of g] by (intro exI [of _ g]) (simp add: Float_def)
  next
    case (CallStartArray l)
    then show ?thesis using cs [of g] by (intro exI [of _ g]) (simp add: StartArray_def)
  next
    case (CallStartHash l)
    then show ?thesis using cs [of g] by (intro exI [of _ g]) (simp add: StartHash_def)
  qed
qed

theorem full_frame_rejects_witness:
  "\<exists>g'. call 8 (CallSymbol ''foo'') gen_open_array = Err ErrGeneratorOverflow g'
        \<and> g_w g' = [] \<and> g_bufn g' = 4"
proof -
  have "\<exists>g'. call 8 (CallSymbol ''foo'') gen_open_array = Err ErrGeneratorOverflow g'
        \<and> g_w g' = g_w gen_open_array \<and> g_buf g' = g_buf gen_open_array
        \<and> g_bufn g' = g_bufn gen_open_array \<and> g_st g' = g_st gen_open_array"
    using full_frame_rejects [of gen_open_array
      "\<lparr>i_cnt = 0, i_pos = 0, i_typ = genStArr\<rparr>"
      "[\<lparr>i_cnt = 1, i_pos = 0, i_typ = genStTop\<rparr>]" 8 "CallSymbol ''foo''"]
    by (simp add: gen_open_array_def)
  then obtain g' where "call 8 (CallSymbol ''foo'') gen_open_array = Err ErrGeneratorOverflow g'"
    and "g_w g' = g_w gen_open_array" and "g_bufn g' = g_bufn gen_open_array"
    by blast
  then show ?thesis by (intro exI [of _ g']) (simp add: gen_open_array_def)
qed

subsection \<open>Closing arrays and hashes\<close>

lemma writeAdv_Cons:
  "g_st g = f # fs \<Longrightarrow> \<exists>g'. writeAdv g = Ok () g' \<and> g_st g' = f\<lparr>i_pos := i_pos f + 1\<rparr> # fs"
  by (simp add: writeAdv_def Let_def)

lemma End_close_array:
  assumes "frames_ok (g_st g)" and "g_st g = cur # rest"
  shows "(i_typ cur \<noteq> genStArr \<longrightarrow> EndArray g = Err ErrEndArrayOutside g)
       \<and> (i_typ cur = genStArr \<and> i_pos cur < i_cnt cur \<longrightarrow>
            EndArray g = Err (ErrEndArrayPremature (i_pos cur) (i_cnt cur)) g)
       \<and> ((\<exists>g'. EndArray g = Ok () g') = (i_typ cur = genStArr \<and> i_pos cur = i_cnt cur))
       \<and> (\<forall>g'. EndArray g = Ok () g' \<longrightarrow>
            (\<exists>parent rest'. rest = parent # rest' \<and>
               g_st g' = parent\<lparr>i_pos := i_pos parent + 1\<rparr> # rest'))"
proof (cases "i_typ cur = genStArr \<and> i_pos cur = i_cnt cur")
  case True
  then obtain parent rest' where r: "rest = parent # rest'"
    using assms by (cases rest) auto
  have e: "EndArray g = writeAdv (g\<lparr>g_st := rest\<rparr>)"
    using True assms(2) by (simp add: EndArray_def pop_def)
  obtain g' where g': "writeAdv (g\<lparr>g_st := rest\<rparr>) = Ok () g'"
      "g_st g' = parent\<lparr>i_pos := i_pos parent + 1\<rparr> # rest'"
    using writeAdv_Cons [of "g\<lparr>g_st := rest\<rparr>" parent rest'] r by auto
  show ?thesis using True e g' r by auto
next
  case False
  then show ?thesis using assms(2) by (auto simp: EndArray_def)
qed

lemma End_close_hash:
  assumes "frames_ok (g_st g)" and "g_st g = cur # rest"
  shows "(i_typ cur \<noteq> genStHash \<longrightarrow> EndHash g = Err ErrEndHashOutside g)
       \<and> (i_typ cur = genStHash \<and> i_pos cur < i_cnt cur \<longrightarrow>
            EndHash g = Err (ErrEndHashPremature (i_pos cur) (i_cnt cur)) g)
       \<and> ((\<exists>g'. EndHash g = Ok () g') = (i_typ cur = genStHash \<and> i_pos cur = i_cnt cur))
       \<and> (\<forall>g'. EndHash g = Ok () g' \<longrightarrow>
            (\<exists>parent rest'. rest = parent # rest' \<and>
               g_st g' = parent\<lparr>i_pos := i_pos parent + 1\<rparr> # rest'))"
proof (cases "i_typ cur = genStHash \<and> i_pos cur = i_cnt cur")
  case True
  then obtain parent rest' where r: "rest = parent # rest'"
    using assms by (cases rest) auto
  have e: "EndHash g = writeAdv (g\<lparr>g_st := rest\<rparr>)"
    using True assms(2) by (simp add: EndHash_def pop_def)
  obtain g' where g': "writeAdv (g\<lparr>g_st := rest\<rparr>) = Ok () g'"
      "g_st g' = parent\<lparr>i_pos := i_pos parent + 1\<rparr> # rest'"
    using writeAdv_Cons [of "g\<lparr>g_st := rest\<rparr>" parent rest'] r by auto
  show ?thesis using True e g' r by auto
next
  case False
  then show ?thesis using assms(2) by (auto simp: EndHash_def)
qed

text \<open>
  C8. \<open>EndArray\<close> (and likewise \<open>EndHash\<close>) returns an error whenever the current frame is
  not an array (hash) frame, returns the premature-close error whenever the frame is of the
  matching kind but its position is below its declared size, and returns normally exactly
  when the kind matches and the frame is full; it then pops the frame and advances the
  parent frame by one.
\<close>

theorem End_close_cases:
  assumes "frames_ok (g_st g)" and "g_st g = cur # rest"
  shows "((i_typ cur \<noteq> genStArr \<longrightarrow> EndArray g = Err ErrEndArrayOutside g)
       \<and> (i_typ cur = genStArr \<and> i_pos cur < i_cnt cur \<longrightarrow>
            EndArray g = Err (ErrEndArrayPremature (i_pos cur) (i_cnt cur)) g)
       \<and> ((\<exists>g'. EndArray g = Ok () g') = (i_typ cur = genStArr \<and> i_pos cur = i_cnt cur))
       \<and> (\<forall>g'. EndArray g = Ok () g' \<longrightarrow>
            (\<exists>parent rest'. rest = parent # rest' \<and>
               g_st g' = parent\<lparr>i_pos := i_pos parent + 1\<rparr> # rest')))
     \<and> ((i_typ cur \<noteq> genStHash \<longrightarrow> EndHash g = Err ErrEndHashOutside g)
       \<and> (i_typ cur = genStHash \<and> i_pos cur < i_cnt cur \<longrightarrow>
            EndHash g = Err (ErrEndHashPremature (i_pos cur) (i_cnt cur)) g)
       \<and> ((\<exists>g'. EndHash g = Ok () g') = (i_typ cur = genStHash \<and> i_pos cur = i_cnt cur))
       \<and> (\<forall>g'. EndHash g = Ok () g' \<longrightarrow>
            (\<exists>parent rest'. rest = parent # rest' \<and>
               g_st g' = parent\<lparr>i_pos := i_pos parent + 1\<rparr> # rest')))"
  using End_close_array [OF assms] End_close_hash [OF assms] by (rule conjI)

theorem End_close_cases_witness:
  "(\<exists>g'. EndArray gen_open_array = Ok () g')
   \<and> EndHash gen_open_array = Err ErrEndHashOutside gen_open_array"
  using End_close_cases [of gen_open_array
      "\<lparr>i_cnt = 0, i_pos = 0, i_typ = genStArr\<rparr>"
      "[\<lparr>i_cnt = 1, i_pos = 0, i_typ = genStTop\<rparr>]"]
  by (simp add: gen_open_array_def)

subsection \<open>Literal fixnum streams\<close>

text \<open>
  C9. A single fixnum written to a fresh generator gives exactly the literal streams
  \<open>04 08 69 00\<close> for 0, \<open>04 08 69 06\<close> for 1, \<open>04 08 69 7F\<close> for 122, \<open>04 08 69 FA\<close> for -1,
  \<open>04 08 69 02 AD DE\<close> for 0xDEAD and \<open>04 08 69 FE 53 21\<close> for -0xDEAD. The magic is put in
  front by construction, and again by \<open>Reset\<close>: a second stream written after a reset to
  the same sink starts with its own magic.
\<close>

theorem fixnum_literal_streams:
  "written (andThen NewGenerator (Fixnum 0)) = Some [0x04, 0x08, 0x69, 0x00]
   \<and> written (andThen NewGenerator (Fixnum 1)) = Some [0x04, 0x08, 0x69, 0x06]
   \<and> written (andThen NewGenerator (Fixnum 122)) = Some [0x04, 0x08, 0x69, 0x7F]
   \<and> written (andThen NewGenerator (Fixnum (- 1))) = Some [0x04, 0x08, 0x69, 0xFA]
   \<and> written (andThen NewGenerator (Fixnum 0xDEAD)) = Some [0x04, 0x08, 0x69, 0x02, 0xAD, 0xDE]
   \<and> written (andThen NewGenerator (Fixnum (- 0xDEAD))) = Some [0x04, 0x08, 0x69, 0xFE, 0x53, 0x21]
   \<and> written (andThen (andThen (andThen NewGenerator (Fixnum 0)) Reset) (Fixnum 1))
       = Some [0x04, 0x08, 0x69, 0x00, 0x04, 0x08, 0x69, 0x06]"
  by (intro conjI; code_simp)

subsection \<open>What each step adds to the stream\<close>

lemma appended_refl: "appended g [] g"
  by (simp add: appended_def)

lemma appended_trans: "appended g a g1 \<Longrightarrow> appended g1 b g2 \<Longrightarrow> appended g (a @ b) g2"
  by (simp add: appended_def)

lemma put_appended:
  "g_bufn g < length (g_buf g) \<Longrightarrow> \<exists>g'. put b g = Ok () g' \<and> appended g [b] g'"
  by (simp add: put_def appended_def pending_def take_Suc_conv_app_nth)

lemma byte_and_ff: "(word_of_int (x AND 0xFF) :: byte) = word_of_int x"
proof -
  have "(0xFF :: int) = mask 8" by (simp add: mask_eq_exp_minus_1)
  then have "x AND 0xFF = take_bit 8 x" by (simp add: take_bit_eq_mask)
  then show ?thesis by (simp add: word_of_int_eq_iff)
qed

lemma take_eq_appendI:
  assumes "length ys = length xs" and "n + length bs \<le> length xs"
    and "\<And>j. j < n \<Longrightarrow> ys ! j = xs ! j"
    and "\<And>j. j < length bs \<Longrightarrow> ys ! (n + j) = bs ! j"
  shows "take (n + length bs) ys = take n xs @ bs"
proof (rule nth_equalityI)
  show "length (take (n + length bs) ys) = length (take n xs @ bs)"
    using assms(1,2) by simp
next
  fix i assume "i < length (take (n + length bs) ys)"
  then have i: "i < n + length bs" by simp
  show "take (n + length bs) ys ! i = (take n xs @ bs) ! i"
  proof (cases "i < n")
    case True
    then show ?thesis using assms(2,3) i by (simp add: nth_append)
  next
    case False
    then have "ys ! (n + (i - n)) = bs ! (i - n)" using i by (intro assms(4)) simp
    then show ?thesis using False assms(2) i by (simp add: nth_append)
  qed
qed

lemma drop_bit_0_nonneg: "drop_bit k (n::int) = 0 \<Longrightarrow> 0 \<le> n"
  using drop_bit_nonnegative_int_iff [of k n] by simp

lemma drop_bit_m1_neg: "drop_bit k (n::int) = - 1 \<Longrightarrow> n < 0"
  using drop_bit_negative_int_iff [of k n] by simp

lemma loop_step_continue:
  assumes "i < 5" and "g_bufn g + i < length (g_buf g)"
    and "drop_bit 8 m \<noteq> 0" and "drop_bit 8 m \<noteq> - 1"
  shows "encodeLong_loop i m g =
           encodeLong_loop (i + 1) (drop_bit 8 m) (g\<lparr>g_buf := (g_buf g)[g_bufn g + i := word_of_int m]\<rparr>)"
  using assms by (subst encodeLong_loop.simps) (simp add: Let_def byte_and_ff)

lemma loop_step_stop:
  assumes "i < 5" and "g_bufn g + i < length (g_buf g)"
    and "drop_bit 8 m = 0 \<or> drop_bit 8 m = - 1"
  shows "encodeLong_loop i m g =
           Ok () (g\<lparr>g_buf := (g_buf g)[g_bufn g + i := word_of_int m,
                                         g_bufn g := word_of_int (if drop_bit 8 m = 0 then int i else - int i)],
                    g_bufn := g_bufn g + i + 1\<rparr>)"
  using assms by (subst encodeLong_loop.simps) (auto simp: Let_def byte_and_ff)

lemma encodeLong_loop_appended:
  assumes room: "g_bufn g + 4 < length (g_buf g)"
    and rng: "drop_bit 32 n = 0 \<or> drop_bit 32 n = - 1"
  shows "\<exists>g'. encodeLong_loop 1 n g = Ok () g' \<and> appended g (tag_of n # le_bytes (plen n) n) g'"
proof -
  let ?b = "g_bufn g"
  let ?t = "tag_of n"
  let ?g1 = "g\<lparr>g_buf := (g_buf g)[?b + 1 := word_of_int n]\<rparr>"
  let ?g2 = "g\<lparr>g_buf := (g_buf g)[?b + 1 := word_of_int n, ?b + 2 := word_of_int (drop_bit 8 n)]\<rparr>"
  let ?g3 = "g\<lparr>g_buf := (g_buf g)[?b + 1 := word_of_int n, ?b + 2 := word_of_int (drop_bit 8 n),
                                  ?b + 3 := word_of_int (drop_bit 16 n)]\<rparr>"
  consider (k1) "drop_bit 8 n = 0 \<or> drop_bit 8 n = - 1"
    | (k2) "\<not> (drop_bit 8 n = 0 \<or> drop_bit 8 n = - 1)" "drop_bit 16 n = 0 \<or> drop_bit 16 n = - 1"
    | (k3) "\<not> (drop_bit 8 n = 0 \<or> drop_bit 8 n = - 1)" "\<not> (drop_bit 16 n = 0 \<or> drop_bit 16 n = - 1)"
           "drop_bit 24 n = 0 \<or> drop_bit 24 n = - 1"
    | (k4) "\<not> (drop_bit 8 n = 0 \<or> drop_bit 8 n = - 1)" "\<not> (drop_bit 16 n = 0 \<or> drop_bit 16 n = - 1)"
           "\<not> (drop_bit 24 n = 0 \<or> drop_bit 24 n = - 1)"
    by blast
  then show ?thesis
  proof cases
    case k1
    let ?bs = "[?t, word_of_int n]"
    let ?buf = "(g_buf g)[?b + 1 := word_of_int n, ?b := ?t]"
    let ?g' = "g\<lparr>g_buf := ?buf, g_bufn := ?b + 2\<rparr>"
    have pk: "plen n = 1" using k1 by (simp add: plen_def)
    have lb: "?t # le_bytes (plen n) n = ?bs" by (simp add: pk le_bytes_def)
    have t: "?t = word_of_int (if drop_bit 8 n = 0 then int 1 else - int 1)"
      using k1 drop_bit_0_nonneg [of 8 n] drop_bit_m1_neg [of 8 n] by (auto simp: tag_of_def pk)
    have e: "encodeLong_loop 1 n g = Ok () ?g'"
      using loop_step_stop [of 1 g n] k1 room by (simp add: t eval_nat_numeral)
    have "take (?b + length ?bs) ?buf = take ?b (g_buf g) @ ?bs"
      using room by (intro take_eq_appendI) (auto simp: nth_list_update less_Suc_eq)
    then have "appended g ?bs ?g'" by (simp add: appended_def pending_def eval_nat_numeral)
    then show ?thesis using e lb by auto
  next
    case k2
    let ?bs = "[?t, word_of_int n, word_of_int (drop_bit 8 n)]"
    let ?buf = "(g_buf g)[?b + 1 := word_of_int n, ?b + 2 := word_of_int (drop_bit 8 n), ?b := ?t]"
    let ?g' = "g\<lparr>g_buf := ?buf, g_bufn := ?b + 3\<rparr>"
    have pk: "plen n = 2" using k2 by (simp add: plen_def)
    have lb: "?t # le_bytes (plen n) n = ?bs" by (simp add: pk le_bytes_def upt_rec numeral_2_eq_2)
    have t: "?t = word_of_int (if drop_bit 16 n = 0 then int 2 else - int 2)"
      using k2 drop_bit_0_nonneg [of 16 n] drop_bit_m1_neg [of 16 n] by (auto simp: tag_of_def pk)
    have "encodeLong_loop 1 n g = encodeLong_loop 2 (drop_bit 8 n) ?g1"
      using loop_step_continue [of 1 g n] k2 room by (simp add: eval_nat_numeral)
    also have "\<dots> = Ok () ?g'"
      using loop_step_stop [of 2 ?g1 "drop_bit 8 n"] k2 room by (simp add: t eval_nat_numeral)
    finally have e: "encodeLong_loop 1 n g = Ok () ?g'" .
    have "take (?b + length ?bs) ?buf = take ?b (g_buf g) @ ?bs"
      using room by (intro take_eq_appendI) (auto simp: nth_list_update less_Suc_eq)
    then have "appended g ?bs ?g'" by (simp add: appended_def pending_def eval_nat_numeral)
    then show ?thesis using e lb by auto
  next
    case k3
    let ?bs = "[?t, word_of_int n, word_of_int (drop_bit 8 n), word_of_int (drop_bit 16 n)]"
    let ?buf = "(g_buf g)[?b + 1 := word_of_int n, ?b + 2 := word_of_int (drop_bit 8 n),
                          ?b + 3 := word_of_int (drop_bit 16 n), ?b := ?t]"
    let ?g' = "g\<lparr>g_buf := ?buf, g_bufn := ?b + 4\<rparr>"
    have pk: "plen n = 3" using k3 by (simp add: plen_def)
    have lb: "?t # le_bytes (plen n) n = ?bs" by (simp add: pk le_bytes_def upt_rec numeral_3_eq_3)
    have t: "?t = word_of_int (if drop_bit 24 n = 0 then int 3 else - int 3)"
      using k3 drop_bit_0_nonneg [of 24 n] drop_bit_m1_neg [of 24 n] by (auto simp: tag_of_def pk)
    have "encodeLong_loop 1 n g = encodeLong_loop 2 (drop_bit 8 n) ?g1"
      using loop_step_continue [of 1 g n] k3 room by (simp add: eval_nat_numeral)
    also have "\<dots> = encodeLong_loop 3 (drop_bit 16 n) ?g2"
      using loop_step_continue [of 2 ?g1 "drop_bit 8 n"] k3 room by (simp add: eval_nat_numeral)
    also have "\<dots> = Ok () ?g'"
      using loop_step_stop [of 3 ?g2 "drop_bit 16 n"] k3 room by (simp add: t eval_nat_numeral)
    finally have e: "encodeLong_loop 1 n g = Ok () ?g'" .
    have "take (?b + length ?bs) ?buf = take ?b (g_buf g) @ ?bs"
      using room by (intro take_eq_appendI) (auto simp: nth_list_update less_Suc_eq)
    then have "appended g ?bs ?g'" by (simp add: appended_def pending_def eval_nat_numeral)
    then show ?thesis using e lb by auto
  next
    case k4
    let ?bs = "[?t, word_of_int n, word_of_int (drop_bit 8 n), word_of_int (drop_bit 16 n),
                word_of_int (drop_bit 24 n)]"
    let ?buf = "(g_buf g)[?b + 1 := word_of_int n, ?b + 2 := word_of_int (drop_bit 8 n),
                          ?b + 3 := word_of_int (drop_bit 16 n),
                          ?b + 4 := word_of_int (drop_bit 24 n), ?b := ?t]"
    let ?g' = "g\<lparr>g_buf := ?buf, g_bufn := ?b + 5\<rparr>"
    have pk: "plen n = 4" using k4 by (simp add: plen_def)
    have lb: "?t # le_bytes (plen n) n = ?bs" by (simp add: pk le_bytes_def upt_rec eval_nat_numeral)
    have t: "?t = word_of_int (if drop_bit 32 n = 0 then int 4 else - int 4)"
      using rng drop_bit_0_nonneg [of 32 n] drop_bit_m1_neg [of 32 n] by (auto simp: tag_of_def pk)
    have "encodeLong_loop 1 n g = encodeLong_loop 2 (drop_bit 8 n) ?g1"
      using loop_step_continue [of 1 g n] k4 room by (simp add: eval_nat_numeral)
    also have "\<dots> = encodeLong_loop 3 (drop_bit 16 n) ?g2"
      using loop_step_continue [of 2 ?g1 "drop_bit 8 n"] k4 room by (simp add: eval_nat_numeral)
    also have "\<dots> = encodeLong_loop 4 (drop_bit 24 n) ?g3"
      using loop_step_continue [of 3 ?g2 "drop_bit 16 n"] k4 room by (simp add: eval_nat_numeral)
    also have "\<dots> = Ok () ?g'"
      using loop_step_stop [of 4 ?g3 "drop_bit 24 n"] rng room by (simp add: t eval_nat_numeral)
    finally have e: "encodeLong_loop 1 n g = Ok () ?g'" .
    have "take (?b + length ?bs) ?buf = take ?b (g_buf g) @ ?bs"
      using room by (intro take_eq_appendI) (auto simp: nth_list_update less_Suc_eq)
    then have "appended g ?bs ?g'" by (simp add: appended_def pending_def eval_nat_numeral)
    then show ?thesis using e lb by auto
  qed
qed


lemma in_range_drop_bit:
  assumes "- (2 ^ 32) \<le> (n::int)" and "n < 2 ^ 32"
  shows "drop_bit 32 n = 0 \<or> drop_bit 32 n = - 1"
proof (cases "0 \<le> n")
  case True
  then have "n div 2 ^ 32 = 0" using assms by simp
  then show ?thesis by (simp add: drop_bit_eq_div)
next
  case False
  then have "(n + 2 ^ 32) div 2 ^ 32 = 0" using assms by simp
  moreover have "(n + 2 ^ 32) div 2 ^ 32 = n div 2 ^ 32 + 1" by simp
  ultimately have "n div 2 ^ 32 = - 1" by linarith
  then show ?thesis by (simp add: drop_bit_eq_div)
qed

lemma length_pl: "length (pl n) \<le> 5"
  by (simp add: pl_def le_bytes_def plen_def)

lemma encodeLong_appended:
  assumes room: "g_bufn g + 4 < length (g_buf g)"
    and rng: "- (2 ^ 32) \<le> n" "n < 2 ^ 32"
  shows "\<exists>g'. encodeLong n g = Ok () g' \<and> appended g (pl n) g'"
proof -
  have r: "g_bufn g < length (g_buf g)" using room by simp
  consider "n = 0" | "0 < n \<and> n < 123" | "- 124 < n \<and> n < 0"
    | "n \<noteq> 0" "\<not> (0 < n \<and> n < 123)" "\<not> (- 124 < n \<and> n < 0)" by blast
  then show ?thesis
  proof cases
    case 1
    then show ?thesis using put_appended [OF r, of 0] by (simp add: encodeLong_def pl_def)
  next
    case 2
    then show ?thesis using put_appended [OF r, of "word_of_int (n + 5)"]
      by (simp add: encodeLong_def pl_def)
  next
    case 3
    then show ?thesis using put_appended [OF r, of "word_of_int (n - 5)"]
      by (simp add: encodeLong_def pl_def byte_and_ff)
  next
    case 4
    then have c: "(0 < n \<and> n < 123) = False" "(- 124 < n \<and> n < 0) = False" by auto
    show ?thesis
      using encodeLong_loop_appended [OF room in_range_drop_bit [OF rng]] 4(1)
      by (simp add: encodeLong_def pl_def c)
  qed
qed

lemma copy_str_appended:
  assumes "g_bufn g + length bs \<le> length (g_buf g)"
  shows "\<exists>g'. copy_str bs g = Ok () g' \<and> appended g bs g'"
proof -
  have n: "min (length (g_buf g) - g_bufn g) (length bs) = length bs" using assms by simp
  have le: "g_bufn g \<le> length (g_buf g)" using assms by simp
  show ?thesis using assms le
    by (simp add: copy_str_def Let_def n appended_def pending_def)
qed

lemma checkState_reserved:
  assumes "g_st g = cur # rest" and "i_pos cur \<noteq> i_cnt cur"
    and "g_bufn g \<le> length (g_buf g)"
  shows "\<exists>g'. checkState sz g = Ok () g' \<and> reserved g sz g'"
  using assms by (auto simp: checkState_def reserved_def pending_def Let_def)

lemma writeAdv_stream:
  assumes "g_st g = cur # rest"
  shows "\<exists>g'. writeAdv g = Ok () g' \<and> stream g' = stream g
          \<and> g_st g' = cur\<lparr>i_pos := i_pos cur + 1\<rparr> # rest
          \<and> g_symCount g' = g_symCount g \<and> g_symTbl g' = g_symTbl g"
  using assms by (simp add: writeAdv_def Let_def stream_def pending_def)


lemma emit_tag_long:
  assumes "g_st g = cur # rest" and "i_pos cur \<noteq> i_cnt cur"
    and "g_bufn g \<le> length (g_buf g)" and "- (2 ^ 32) \<le> n" and "n < 2 ^ 32"
    and "1 + 5 + k \<le> sz"
  shows "\<exists>g2. (\<forall>K :: Generator \<Rightarrow> gres. andThen (checkState sz g) (\<lambda>g. andThen (put tag g) (\<lambda>g.
                  andThen (encodeLong n g) K)) = K g2)
              \<and> emitted g (tag # pl n) g2 \<and> g_bufn g2 + k \<le> length (g_buf g2)"
proof -
  obtain g0 where g0: "checkState sz g = Ok () g0" "reserved g sz g0"
    using checkState_reserved [OF assms(1,2,3)] by blast
  have "g_bufn g0 < length (g_buf g0)" using g0(2) assms(6) by (simp add: reserved_def)
  then obtain g1 where g1: "put tag g0 = Ok () g1" "appended g0 [tag] g1"
    using put_appended by blast
  have "g_bufn g1 + 4 < length (g_buf g1)"
    using g0(2) g1(2) assms(6) by (simp add: reserved_def appended_def)
  then obtain g2 where g2: "encodeLong n g1 = Ok () g2" "appended g1 (pl n) g2"
    using encodeLong_appended assms(4,5) by blast
  have e: "emitted g (tag # pl n) g2"
    using g0(2) g1(2) g2(2) assms(6) length_pl [of n]
    by (simp add: reserved_def appended_def emitted_def)
  have r: "g_bufn g2 + k \<le> length (g_buf g2)"
    using g0(2) g1(2) g2(2) assms(6) length_pl [of n]
    by (simp add: reserved_def appended_def)
  show ?thesis using g0(1) g1(1) g2(1) e r by (intro exI [of _ g2]) simp
qed

lemma emit_tag_long_bytes:
  assumes "g_st g = cur # rest" and "i_pos cur \<noteq> i_cnt cur"
    and "g_bufn g \<le> length (g_buf g)" and "- (2 ^ 32) \<le> n" and "n < 2 ^ 32"
    and "1 + 5 + length bs \<le> sz"
  shows "\<exists>g3. (\<forall>K :: Generator \<Rightarrow> gres. andThen (checkState sz g) (\<lambda>g. andThen (put tag g) (\<lambda>g.
                  andThen (encodeLong n g) (\<lambda>g. andThen (copy_str bs g) K))) = K g3)
              \<and> emitted g (tag # pl n @ bs) g3"
proof -
  obtain g2 where g2: "\<And>K :: Generator \<Rightarrow> gres. andThen (checkState sz g) (\<lambda>g. andThen (put tag g) (\<lambda>g.
                  andThen (encodeLong n g) K)) = K g2"
      "emitted g (tag # pl n) g2" "g_bufn g2 + length bs \<le> length (g_buf g2)"
    using emit_tag_long [OF assms] by blast
  obtain g3 where g3: "copy_str bs g2 = Ok () g3" "appended g2 bs g3"
    using copy_str_appended [OF g2(3)] by blast
  have e: "emitted g (tag # pl n @ bs) g3"
    using g2(2,3) g3(2) by (simp add: emitted_def appended_def)
  have "andThen (checkState sz g) (\<lambda>g. andThen (put tag g) (\<lambda>g.
                  andThen (encodeLong n g) (\<lambda>g. andThen (copy_str bs g) K))) = K g3" for K :: "Generator \<Rightarrow> gres"
    using g2(1) [of "\<lambda>g. andThen (copy_str bs g) K"] g3(1) by simp
  then show ?thesis using e by blast
qed

lemma index_of_less: "s \<in> set xs \<Longrightarrow> index_of s xs < length xs"
  by (induction xs) auto

lemma index_of_append: "s \<in> set xs \<Longrightarrow> index_of s (xs @ ys) = index_of s xs"
  by (induction xs) auto

lemma symScan_spec:
  assumes "n \<le> length tbl" and "i \<le> n"
  shows "symScan i n tbl s =
           (if s \<in> set (drop i (take n tbl)) then Found (i + index_of s (drop i (take n tbl)))
            else NotFound)"
  using assms
proof (induction i n tbl s rule: symScan.induct)
  case (1 i n tbl s)
  show ?case
  proof (cases "i < n")
    case False
    then show ?thesis using 1 by (subst symScan.simps) simp
  next
    case True
    then have d: "drop i (take n tbl) = tbl ! i # drop (Suc i) (take n tbl)"
      using 1(2) by (simp add: Cons_nth_drop_Suc [symmetric])
    show ?thesis
    proof (cases "tbl ! i = s")
      case True
      then show ?thesis using \<open>i < n\<close> 1(2) d by (subst symScan.simps) simp
    next
      case False
      then have "symScan i n tbl s = symScan (i + 1) n tbl s"
        using \<open>i < n\<close> 1(2) by (subst symScan.simps) simp
      also have "\<dots> = (if s \<in> set (drop (i + 1) (take n tbl))
                        then Found (i + 1 + index_of s (drop (i + 1) (take n tbl))) else NotFound)"
        using 1 \<open>i < n\<close> False by (intro "1.IH") simp_all
      finally show ?thesis using d False by simp
    qed
  qed
qed


lemma stream_emitted: "emitted g bs g' \<Longrightarrow> stream g' = stream g @ bs"
  by (simp add: emitted_def stream_def)

lemma Symbol_step:
  assumes fr: "g_st g = cur # rest" "i_pos cur \<noteq> i_cnt cur"
    and buf: "g_bufn g \<le> length (g_buf g)"
    and tbl: "g_symCount g \<le> length (g_symTbl g)"
    and grow: "0 < grow"
    and sz: "int (length s) < 2 ^ 32" "int (g_symCount g) < 2 ^ 32"
  shows "\<exists>g'. Symbol grow s g = Ok () g'
     \<and> stream g' = stream g @ (if s \<in> set (live g) then TYPE_SYMLINK # pl (int (index_of s (live g)))
                               else TYPE_SYMBOL # pl (int (length s)) @ str_bytes s)
     \<and> live g' = (if s \<in> set (live g) then live g else live g @ [s])
     \<and> g_st g' = cur\<lparr>i_pos := i_pos cur + 1\<rparr> # rest
     \<and> g_bufn g' \<le> length (g_buf g') \<and> g_symCount g' \<le> length (g_symTbl g')"
proof -
  let ?g = "if length (g_symTbl g) = 0 \<or> length (g_symTbl g) = g_symCount g
            then g\<lparr>g_symTbl := g_symTbl g @ replicate grow []\<rparr> else g"
  have lv: "live ?g = live g" using tbl by (simp add: live_def)
  have st: "g_st ?g = cur # rest" using fr by simp
  have bf: "g_bufn ?g \<le> length (g_buf ?g)" using buf by simp
  have cnt: "g_symCount ?g = g_symCount g" by simp
  have room: "g_symCount ?g < length (g_symTbl ?g)" using tbl grow by auto
  have strm: "stream ?g = stream g" by (simp add: stream_def pending_def)
  have scan: "symScan 0 (g_symCount ?g) (g_symTbl ?g) s =
      (if s \<in> set (live g) then Found (index_of s (live g)) else NotFound)"
    using symScan_spec [of "g_symCount ?g" "g_symTbl ?g" 0 s] room lv
    by (simp add: live_def del: if_split)
  have unf: "Symbol grow s g =
      (case symScan 0 (g_symCount ?g) (g_symTbl ?g) s of
         ScanPanic \<Rightarrow> Panic IndexOutOfRange
       | Found i \<Rightarrow>
           andThen (checkState (1 + fixnumMaxBytes) ?g) (\<lambda>g.
           andThen (put TYPE_SYMLINK g) (\<lambda>g.
           andThen (encodeLong (int i) g) writeAdv))
       | NotFound \<Rightarrow>
           andThen (checkState (1 + fixnumMaxBytes + length s) ?g) (\<lambda>g.
           andThen (put TYPE_SYMBOL g) (\<lambda>g.
           andThen (encodeLong (int (length s)) g) (\<lambda>g.
           andThen (copy_str (str_bytes s) g) (\<lambda>g.
             if g_symCount g < length (g_symTbl g)
             then writeAdv (g\<lparr>g_symTbl := (g_symTbl g)[g_symCount g := s],
                               g_symCount := g_symCount g + 1\<rparr>)
             else Panic IndexOutOfRange)))))"
    unfolding Symbol_def Let_def by (rule refl)
  show ?thesis
  proof (cases "s \<in> set (live g)")
    case True
    let ?i = "index_of s (live g)"
    have "?i < g_symCount g" using index_of_less [OF True] by (simp add: live_def)
    then have ir: "- (2 ^ 32) \<le> int ?i" "int ?i < 2 ^ 32" using sz(2) by simp_all
    obtain g2 where g2: "\<And>K :: Generator \<Rightarrow> gres.
          andThen (checkState (1 + fixnumMaxBytes) ?g) (\<lambda>g. andThen (put TYPE_SYMLINK g) (\<lambda>g.
            andThen (encodeLong (int ?i) g) K)) = K g2"
        "emitted ?g (TYPE_SYMLINK # pl (int ?i)) g2"
      using emit_tag_long [OF st fr(2) bf ir, of 0 "1 + fixnumMaxBytes" TYPE_SYMLINK]
      by (auto simp: fixnumMaxBytes_def)
    have st2: "g_st g2 = cur # rest" using g2(2) st by (simp add: emitted_def)
    obtain g' where g': "writeAdv g2 = Ok () g'" "stream g' = stream g2"
        "g_st g' = cur\<lparr>i_pos := i_pos cur + 1\<rparr> # rest"
        "g_symCount g' = g_symCount g2" "g_symTbl g' = g_symTbl g2"
      using writeAdv_stream [OF st2] by blast
    have e: "Symbol grow s g = Ok () g'"
      using unf scan True g2(1) [of writeAdv] g'(1) by simp
    have s1: "stream g' = stream g @ TYPE_SYMLINK # pl (int ?i)"
      using g'(2) stream_emitted [OF g2(2)] strm by simp
    have l1: "live g' = live g"
      using g'(4,5) g2(2) lv by (simp add: live_def emitted_def)
    have b1: "g_bufn g' \<le> length (g_buf g')"
      using g'(1) g2(2) st2 by (auto simp: writeAdv_def Let_def emitted_def split: if_splits)
    have c1: "g_symCount g' \<le> length (g_symTbl g')"
      using g'(4,5) g2(2) room by (simp add: emitted_def)
    show ?thesis using e s1 l1 g'(3) b1 c1 True by (intro exI [of _ g']) simp
  next
    case False
    have lr: "- (2 ^ 32) \<le> int (length s)" by simp
    obtain g3 where g3: "\<And>K :: Generator \<Rightarrow> gres.
          andThen (checkState (1 + fixnumMaxBytes + length s) ?g) (\<lambda>g. andThen (put TYPE_SYMBOL g) (\<lambda>g.
            andThen (encodeLong (int (length s)) g) (\<lambda>g. andThen (copy_str (str_bytes s) g) K))) = K g3"
        "emitted ?g (TYPE_SYMBOL # pl (int (length s)) @ str_bytes s) g3"
      using emit_tag_long_bytes [OF st fr(2) bf lr sz(1), of "str_bytes s"
          "1 + fixnumMaxBytes + length s" TYPE_SYMBOL]
      by (auto simp: fixnumMaxBytes_def str_bytes_def)
    let ?g4 = "g3\<lparr>g_symTbl := (g_symTbl g3)[g_symCount g3 := s], g_symCount := g_symCount g3 + 1\<rparr>"
    have t3: "g_symCount g3 = g_symCount ?g" "g_symTbl g3 = g_symTbl ?g"
      using g3(2) unfolding emitted_def by blast+
    have room3: "g_symCount g3 < length (g_symTbl g3)" using room unfolding t3 .
    have st4: "g_st ?g4 = cur # rest" using g3(2) st by (simp add: emitted_def)
    obtain g' where g': "writeAdv ?g4 = Ok () g'" "stream g' = stream ?g4"
        "g_st g' = cur\<lparr>i_pos := i_pos cur + 1\<rparr> # rest"
        "g_symCount g' = g_symCount ?g4" "g_symTbl g' = g_symTbl ?g4"
      using writeAdv_stream [OF st4] by blast
    have e: "Symbol grow s g = Ok () g'"
      using unf scan False g3(1) [of "\<lambda>g. if g_symCount g < length (g_symTbl g)
             then writeAdv (g\<lparr>g_symTbl := (g_symTbl g)[g_symCount g := s],
                               g_symCount := g_symCount g + 1\<rparr>)
             else Panic IndexOutOfRange"] room3 g'(1) by simp
    have "stream ?g4 = stream g3" by (simp add: stream_def pending_def)
    then have s1: "stream g' = stream g @ TYPE_SYMBOL # pl (int (length s)) @ str_bytes s"
      using g'(2) stream_emitted [OF g3(2)] strm by simp
    have "live ?g4 = take (g_symCount g3) (g_symTbl g3) @ [s]"
      using room3 by (simp add: live_def take_Suc_conv_app_nth)
    also have "take (g_symCount g3) (g_symTbl g3) = live ?g" unfolding t3 live_def ..
    finally have "live ?g4 = live g @ [s]" unfolding lv .
    then have l1: "live g' = live g @ [s]"
      using g'(4,5) by (simp add: live_def)
    have b1: "g_bufn g' \<le> length (g_buf g')"
      using g'(1) g3(2) st4 by (auto simp: writeAdv_def Let_def emitted_def split: if_splits)
    have c1: "g_symCount g' \<le> length (g_symTbl g')"
    proof -
      have "g_symCount g' = g_symCount g3 + 1" using g'(4) by simp
      moreover have "length (g_symTbl g') = length (g_symTbl g3)" using g'(5) by simp
      ultimately show ?thesis using room3 by linarith
    qed
    show ?thesis using e s1 l1 g'(3) b1 c1 False by (intro exI [of _ g']) simp
  qed
qed


lemma first_seen_acc_append:
  "first_seen_acc tbl (xs @ ys) = first_seen_acc (first_seen_acc tbl xs) ys"
  by (induction xs arbitrary: tbl) simp_all

lemma set_first_seen_acc: "set (first_seen_acc tbl xs) = set tbl \<union> set xs"
  by (induction xs arbitrary: tbl) auto

lemma distinct_first_seen_acc: "distinct tbl \<Longrightarrow> distinct (first_seen_acc tbl xs)"
  by (induction xs arbitrary: tbl) auto

lemma first_seen_acc_prefix: "\<exists>zs. first_seen_acc tbl xs = tbl @ zs"
proof (induction xs arbitrary: tbl)
  case Nil
  then show ?case by simp
next
  case (Cons x xs)
  obtain zs where "first_seen_acc (if x \<in> set tbl then tbl else tbl @ [x]) xs
                    = (if x \<in> set tbl then tbl else tbl @ [x]) @ zs"
    using Cons.IH by blast
  then show ?case by (cases "x \<in> set tbl") auto
qed

lemma length_first_seen_acc: "length (first_seen_acc tbl xs) \<le> length tbl + length xs"
proof (induction xs arbitrary: tbl)
  case Nil
  then show ?case by simp
next
  case (Cons x xs)
  show ?case using Cons.IH [of "if x \<in> set tbl then tbl else tbl @ [x]"] by (simp split: if_splits)
qed

lemma set_first_seen [simp]: "set (first_seen xs) = set xs"
  by (simp add: first_seen_def set_first_seen_acc)

lemma distinct_first_seen: "distinct (first_seen xs)"
  by (simp add: first_seen_def distinct_first_seen_acc)

lemma length_first_seen: "length (first_seen xs) \<le> length xs"
  using length_first_seen_acc [of "[]" xs] by (simp add: first_seen_def)

lemma first_seen_snoc:
  "first_seen (pre @ [s]) = (if s \<in> set pre then first_seen pre else first_seen pre @ [s])"
  by (simp add: first_seen_def first_seen_acc_append set_first_seen_acc)

lemma first_seen_append_prefix: "\<exists>zs. first_seen (pre @ ss) = first_seen pre @ zs"
  using first_seen_acc_prefix [of "first_seen_acc [] pre" ss]
  by (simp add: first_seen_def first_seen_acc_append)

lemma sym_id_stable:
  assumes "s \<in> set pre"
  shows "sym_id (pre @ ss) s = index_of s (first_seen pre)"
proof -
  obtain zs where "first_seen (pre @ ss) = first_seen pre @ zs"
    using first_seen_append_prefix by blast
  then show ?thesis using assms by (simp add: sym_id_def index_of_append)
qed

lemma index_of_snoc: "s \<notin> set xs \<Longrightarrow> index_of s (xs @ [s]) = length xs"
  by (induction xs) auto

lemma sym_id_first:
  assumes "i < length ss" and "ss ! i \<notin> set (take i ss)"
  shows "sym_id ss (ss ! i) = card (set (take i ss))"
proof -
  let ?s = "ss ! i"
  have split: "ss = (take i ss @ [?s]) @ drop (Suc i) ss"
    using assms(1) by (simp add: take_Suc_conv_app_nth [symmetric])
  have "sym_id ((take i ss @ [?s]) @ drop (Suc i) ss) ?s = index_of ?s (first_seen (take i ss @ [?s]))"
    by (intro sym_id_stable) simp
  also have "\<dots> = index_of ?s (first_seen (take i ss) @ [?s])"
    using assms(2) by (simp add: first_seen_snoc)
  also have "\<dots> = length (first_seen (take i ss))"
    using assms(2) by (intro index_of_snoc) simp
  also have "\<dots> = card (set (take i ss))"
    using distinct_card [OF distinct_first_seen, of "take i ss"] by simp
  finally show ?thesis using split by simp
qed

lemma sym_wire_at:
  "sym_wire (pre @ s # ss) (length pre) =
     (if s \<in> set pre then TYPE_SYMLINK # pl (int (index_of s (first_seen pre)))
      else TYPE_SYMBOL # pl (int (length s)) @ str_bytes s)"
  by (simp add: sym_wire_def Let_def sym_id_stable)

lemma symbols_run:
  assumes "live g = first_seen pre" and "g_st g = cur # rest"
    and "i_pos cur + int (length ss) \<le> i_cnt cur"
    and "g_bufn g \<le> length (g_buf g)" and "g_symCount g \<le> length (g_symTbl g)"
    and "0 < grow" and "\<forall>s \<in> set ss. int (length s) < 2 ^ 32"
    and "int (length pre + length ss) < 2 ^ 32"
  shows "\<exists>g'. symbols grow ss g = Ok () g'
     \<and> stream g' = stream g @ concat (map (sym_wire (pre @ ss)) [length pre ..< length pre + length ss])
     \<and> live g' = first_seen (pre @ ss)
     \<and> g_st g' = cur\<lparr>i_pos := i_pos cur + int (length ss)\<rparr> # rest"
  using assms
proof (induction ss arbitrary: g pre cur)
  case Nil
  then show ?case by simp
next
  case (Cons s ss)
  have cnt: "g_symCount g = length (live g)" using Cons.prems(5) by (simp add: live_def)
  have "length (live g) \<le> length pre" using Cons.prems(1) length_first_seen by simp
  then have c32: "int (g_symCount g) < 2 ^ 32" using cnt Cons.prems(8) by simp
  have ne: "i_pos cur \<noteq> i_cnt cur" using Cons.prems(3) by simp
  have s32: "int (length s) < 2 ^ 32" using Cons.prems(7) by simp
  obtain g1 where g1: "Symbol grow s g = Ok () g1"
      "stream g1 = stream g @ (if s \<in> set (live g) then TYPE_SYMLINK # pl (int (index_of s (live g)))
                               else TYPE_SYMBOL # pl (int (length s)) @ str_bytes s)"
      "live g1 = (if s \<in> set (live g) then live g else live g @ [s])"
      "g_st g1 = cur\<lparr>i_pos := i_pos cur + 1\<rparr> # rest"
      "g_bufn g1 \<le> length (g_buf g1)" "g_symCount g1 \<le> length (g_symTbl g1)"
    using Symbol_step [OF Cons.prems(2) ne Cons.prems(4,5,6) s32 c32] by blast
  have w: "stream g1 = stream g @ sym_wire (pre @ s # ss) (length pre)"
    using g1(2) Cons.prems(1) by (simp add: sym_wire_at)
  have l1: "live g1 = first_seen (pre @ [s])"
    using g1(3) Cons.prems(1) by (simp add: first_seen_snoc)
  obtain g' where g': "symbols grow ss g1 = Ok () g'"
      "stream g' = stream g1 @ concat (map (sym_wire ((pre @ [s]) @ ss))
                     [length (pre @ [s]) ..< length (pre @ [s]) + length ss])"
      "live g' = first_seen ((pre @ [s]) @ ss)"
      "g_st g' = cur\<lparr>i_pos := i_pos cur + 1\<rparr>\<lparr>i_pos := i_pos (cur\<lparr>i_pos := i_pos cur + 1\<rparr>) + int (length ss)\<rparr> # rest"
    using Cons.IH [OF l1 g1(4) _ g1(5,6) Cons.prems(6)] Cons.prems(3,7,8) by auto
  have u: "[length pre ..< length pre + length (s # ss)]
             = length pre # [length (pre @ [s]) ..< length (pre @ [s]) + length ss]"
    by (simp add: upt_rec)
  show ?case using g1(1) g' w u by (intro exI [of _ g']) (simp add: add.assoc)
qed


subsection \<open>Bignums\<close>

lemma byte_len_0 [simp]: "byte_len 0 = 0"
  by (simp add: byte_len.simps)

lemma byte_len_pos: "0 < a \<Longrightarrow> byte_len a = Suc (byte_len (a div 256))"
  by (subst byte_len.simps) simp

lemma byte_len_bound: "a < 256 ^ k \<Longrightarrow> byte_len a \<le> k"
proof (induction k arbitrary: a)
  case 0
  then show ?case by simp
next
  case (Suc k)
  show ?case
  proof (cases "a = 0")
    case True
    then show ?thesis by simp
  next
    case False
    have "a div 256 < 256 ^ k" using Suc.prems by (simp add: less_mult_imp_div_less mult.commute)
    then have "byte_len (a div 256) \<le> k" by (rule Suc.IH)
    then show ?thesis using False by (simp add: byte_len_pos)
  qed
qed

lemma unat_drop_bit8: "unat (drop_bit 8 (d :: 64 word)) = unat d div 256"
  by (simp add: drop_bit_eq_div unat_div)

lemma count_inner_spec:
  "d \<noteq> 0 \<Longrightarrow> count_inner k d True sz = sz + min k (byte_len (unat d))"
proof (induction k arbitrary: d sz)
  case 0
  then show ?case by simp
next
  case (Suc k)
  have pos: "0 < unat d" using Suc.prems by (simp add: unat_gt_0)
  show ?case
  proof (cases "drop_bit 8 d = 0")
    case True
    then have "unat d div 256 = 0" using unat_drop_bit8 [of d] by simp
    then have "byte_len (unat d) = 1" using pos by (simp add: byte_len_pos)
    then show ?thesis using True by simp
  next
    case False
    then have "count_inner k (drop_bit 8 d) True (sz + 1)
                 = sz + 1 + min k (byte_len (unat (drop_bit 8 d)))"
      by (rule Suc.IH)
    then show ?thesis using False pos by (simp add: byte_len_pos unat_drop_bit8)
  qed
qed

lemma word_bytes_Suc:
  "word_bytes (Suc m) d = ucast d # word_bytes m (drop_bit 8 d)"
proof -
  have "[0..<Suc m] = 0 # map Suc [0..<m]" by (simp add: upt_conv_Cons map_Suc_upt del: upt_Suc)
  then show ?thesis by (simp add: word_bytes_def comp_def add.commute del: upt_Suc)
qed

lemma write_inner_spec:
  assumes "d \<noteq> 0" and "g_bufn g + min k (byte_len (unat d)) \<le> length (g_buf g)"
  shows "\<exists>g'. write_inner k d True w g = Ok (w + min k (byte_len (unat d))) g'
           \<and> appended g (word_bytes (min k (byte_len (unat d))) d) g'"
  using assms
proof (induction k arbitrary: d w g)
  case 0
  then show ?case by (simp add: word_bytes_def appended_refl)
next
  case (Suc k)
  have pos: "0 < unat d" using Suc.prems(1) by (simp add: unat_gt_0)
  have bl: "byte_len (unat d) = Suc (byte_len (unat (drop_bit 8 d)))"
    using pos by (simp add: byte_len_pos unat_drop_bit8)
  have "g_bufn g < length (g_buf g)" using Suc.prems(2) bl by simp
  then obtain g1 where g1: "put (ucast d) g = Ok () g1" "appended g [ucast d] g1"
    using put_appended by blast
  show ?case
  proof (cases "drop_bit 8 d = 0")
    case True
    then have m: "min (Suc k) (byte_len (unat d)) = 1" using bl by simp
    have "word_bytes 1 d = [ucast d]" by (simp add: word_bytes_def)
    then show ?thesis using True g1 m by simp
  next
    case False
    have room: "g_bufn g1 + min k (byte_len (unat (drop_bit 8 d))) \<le> length (g_buf g1)"
      using Suc.prems(2) g1(2) bl by (simp add: appended_def)
    obtain g' where g': "write_inner k (drop_bit 8 d) True (w + 1) g1
                           = Ok (w + 1 + min k (byte_len (unat (drop_bit 8 d)))) g'"
        "appended g1 (word_bytes (min k (byte_len (unat (drop_bit 8 d)))) (drop_bit 8 d)) g'"
      using Suc.IH [OF False room] by blast
    have m: "min (Suc k) (byte_len (unat d)) = Suc (min k (byte_len (unat (drop_bit 8 d))))"
      using bl by simp
    have "appended g (word_bytes (min (Suc k) (byte_len (unat d))) d) g'"
      using appended_trans [OF g1(2) g'(2)] by (simp add: m word_bytes_Suc)
    then show ?thesis using False g1(1) g'(1) m by (intro exI [of _ g']) simp
  qed
qed

lemma pad_zeros_spec:
  "g_bufn g + k \<le> length (g_buf g) \<Longrightarrow>
   \<exists>g'. pad_zeros k g = Ok () g' \<and> appended g (replicate k 0) g'"
proof (induction k arbitrary: g)
  case 0
  then show ?case by (simp add: appended_refl)
next
  case (Suc k)
  have "g_bufn g < length (g_buf g)" using Suc.prems by simp
  then obtain g1 where g1: "put 0 g = Ok () g1" "appended g [0] g1"
    using put_appended by blast
  have "g_bufn g1 + k \<le> length (g_buf g1)" using Suc.prems g1(2) by (simp add: appended_def)
  then obtain g' where g': "pad_zeros k g1 = Ok () g'" "appended g1 (replicate k 0) g'"
    using Suc.IH by blast
  show ?case using g1(1) g'(1) appended_trans [OF g1(2) g'(2)] by (intro exI [of _ g']) simp
qed


lemma word_bytes_nat: "word_bytes m d = nat_le_bytes m (unat d)"
proof -
  have "(ucast (drop_bit (8 * i) d) :: byte) = of_nat (unat d div 256 ^ i)" for i
  proof -
    have "unat (drop_bit (8 * i) d) = drop_bit (8 * i) (unat d)"
      by (rule unat_drop_bit_eq)
    then have "unat (drop_bit (8 * i) d) = unat d div 2 ^ (8 * i)"
      by (simp only: drop_bit_eq_div)
    moreover have "(2::nat) ^ (8 * i) = 256 ^ i" by (simp add: power_mult)
    ultimately have u: "unat (drop_bit (8 * i) d) = unat d div 256 ^ i" by simp
    have "(ucast (drop_bit (8 * i) d) :: byte) = of_nat (unat (drop_bit (8 * i) d))" by simp
    then show ?thesis by (simp only: u)
  qed
  then show ?thesis by (simp add: word_bytes_def nat_le_bytes_def)
qed

lemma length_nat_le_bytes [simp]: "length (nat_le_bytes k a) = k"
  by (simp add: nat_le_bytes_def)

lemma nat_le_bytes_Suc: "nat_le_bytes (Suc k) a = of_nat a # nat_le_bytes k (a div 256)"
proof -
  have "[0..<Suc k] = 0 # map Suc [0..<k]" by (simp add: upt_conv_Cons map_Suc_upt del: upt_Suc)
  moreover have "a div 256 ^ Suc i = a div 256 div 256 ^ i" for i
    by (simp add: div_mult2_eq)
  ultimately show ?thesis by (simp add: nat_le_bytes_def comp_def del: upt_Suc power_Suc)
qed

lemma le_val_nat_le_bytes: "le_val (nat_le_bytes k a) = a mod 256 ^ k"
proof (induction k arbitrary: a)
  case 0
  then show ?case by (simp add: nat_le_bytes_def)
next
  case (Suc k)
  have "unat (of_nat a :: byte) = a mod 256" by (simp add: unat_of_nat)
  then have "le_val (nat_le_bytes (Suc k) a) = a mod 256 + 256 * ((a div 256) mod 256 ^ k)"
    using Suc.IH by (simp add: nat_le_bytes_Suc)
  also have "\<dots> = a mod 256 ^ Suc k"
    by (simp add: mod_mult2_eq)
  finally show ?case .
qed

lemma le_val_snoc_zero: "le_val (bs @ [0]) = le_val bs"
  by (induction bs) simp_all

lemma less_pow_byte_len: "a < 256 ^ byte_len a"
proof (induction a rule: less_induct)
  case (less a)
  show ?case
  proof (cases "a = 0")
    case True
    then show ?thesis by simp
  next
    case False
    then have "a div 256 < 256 ^ byte_len (a div 256)" by (intro less.IH) simp
    then have "a < 256 * 256 ^ byte_len (a div 256)"
      by (metis div_less_iff_less_mult mult.commute zero_less_numeral)
    then show ?thesis using False by (simp add: byte_len_pos)
  qed
qed

lemma byte_len_minimal: "0 < a \<Longrightarrow> 256 ^ (byte_len a - 1) \<le> a"
proof (induction a rule: less_induct)
  case (less a)
  show ?case
  proof (cases "a div 256 = 0")
    case True
    then show ?thesis using less.prems by (simp add: byte_len_pos)
  next
    case False
    then have "256 ^ (byte_len (a div 256) - 1) \<le> a div 256" using less.prems by (intro less.IH) simp_all
    moreover have "byte_len a = Suc (byte_len (a div 256))" using less.prems by (simp add: byte_len_pos)
    moreover have "0 < byte_len (a div 256)" using False by (simp add: byte_len_pos)
    ultimately have "256 ^ (byte_len a - 1) \<le> 256 * (a div 256)"
      by (cases "byte_len (a div 256)") simp_all
    also have "\<dots> \<le> a" by simp
    finally show ?thesis .
  qed
qed

lemma le_val_payload: "le_val (bignum_payload a) = a"
  using less_pow_byte_len [of a]
  by (simp add: bignum_payload_def Let_def le_val_snoc_zero le_val_nat_le_bytes)

lemma length_payload:
  "length (bignum_payload a) = (if odd (byte_len a) then byte_len a + 1 else byte_len a)"
  by (simp add: bignum_payload_def Let_def)

lemma even_length_payload: "even (length (bignum_payload a))"
  by (simp add: length_payload)


lemma and_one_odd: "((m::nat) AND 1 = 1) = odd m"
  by (simp add: and_one_eq mod_2_eq_odd)

lemma Bignum_single_word:
  assumes d0: "d \<noteq> 0" and bits: "abs_words b = [d]"
    and fr: "g_st g = cur # rest" "i_pos cur \<noteq> i_cnt cur"
    and buf: "g_bufn g \<le> length (g_buf g)"
  shows "\<exists>g'. Bignum b g = Ok () g'
           \<and> stream g' = stream g @ [TYPE_BIGNUM, if neg b then 0x2D else 0x2B]
                 @ pl (int (length (bignum_payload (unat d)) div 2)) @ bignum_payload (unat d)
           \<and> g_st g' = cur\<lparr>i_pos := i_pos cur + 1\<rparr> # rest"
proof -
  let ?a = "unat d"
  let ?m = "byte_len ?a"
  let ?sz = "if odd ?m then ?m + 1 else ?m"
  let ?sign = "(if neg b then 0x2D else 0x2B) :: byte"
  have "?a < 2 ^ 64" using unsigned_less [of d, where 'a = nat] by simp
  then have "?a < 256 ^ 8" by simp
  then have m8: "?m \<le> 8" by (rule byte_len_bound)
  have mm: "min 8 ?m = ?m" using m8 by simp
  have sgn: "(Sign b < 0) = neg b" using bits by (simp add: Sign_def)
  have cnt: "count_outer 0 [d] (length [d]) 0 = ?m"
    using count_inner_spec [OF d0, of 8 0] mm by (simp add: S_word_def)
  have unf: "Bignum b g =
       andThen (checkState (2 + fixnumMaxBytes + ?sz) g) (\<lambda>g.
       andThen (put TYPE_BIGNUM g) (\<lambda>g.
       andThen (put ?sign g) (\<lambda>g.
       andThen (encodeLong (int ((?sz + 1) div 2)) g) (\<lambda>g.
       bind (write_outer 0 [d] (length [d]) 0 g) (\<lambda>w g.
       andThen (pad_zeros (?sz - w) g) writeAdv)))))"
    by (simp only: Bignum_def Let_def bits sgn cnt and_one_odd)
  obtain g0 where g0: "checkState (2 + fixnumMaxBytes + ?sz) g = Ok () g0"
      "reserved g (2 + fixnumMaxBytes + ?sz) g0"
    using checkState_reserved [OF fr buf] by blast
  have "g_bufn g0 < length (g_buf g0)" using g0(2) by (simp add: reserved_def)
  then obtain g1 where g1: "put TYPE_BIGNUM g0 = Ok () g1" "appended g0 [TYPE_BIGNUM] g1"
    using put_appended by blast
  have "g_bufn g1 < length (g_buf g1)" using g0(2) g1(2) by (simp add: reserved_def appended_def)
  then obtain g2 where g2: "put ?sign g1 = Ok () g2" "appended g1 [?sign] g2"
    using put_appended by blast
  have r2: "g_bufn g2 + 4 < length (g_buf g2)"
    using g0(2) g1(2) g2(2) by (simp add: reserved_def appended_def fixnumMaxBytes_def)
  have "(?sz + 1) div 2 \<le> ?sz + 1" by (rule div_le_dividend)
  then have "(?sz + 1) div 2 \<le> 10" using m8 by (simp split: if_splits)
  then have wr: "- (2 ^ 32) \<le> int ((?sz + 1) div 2)" "int ((?sz + 1) div 2) < 2 ^ 32"
    by simp_all
  obtain g3 where g3: "encodeLong (int ((?sz + 1) div 2)) g2 = Ok () g3"
      "appended g2 (pl (int ((?sz + 1) div 2))) g3"
    using encodeLong_appended [OF r2 wr] by blast
  have r3: "g_bufn g3 + ?sz \<le> length (g_buf g3)"
    using g0(2) g1(2) g2(2) g3(2) length_pl [of "int ((?sz + 1) div 2)"]
    by (simp add: reserved_def appended_def fixnumMaxBytes_def)
  have "g_bufn g3 + min 8 ?m \<le> length (g_buf g3)"
    using r3 mm by (simp split: if_splits)
  then obtain g4 where g4: "write_inner 8 d True 0 g3 = Ok (0 + min 8 ?m) g4"
      "appended g3 (word_bytes (min 8 ?m) d) g4"
    using write_inner_spec [OF d0, of g3 8 0] by blast
  have wo: "write_outer 0 [d] (length [d]) 0 g3 = Ok ?m g4"
    using g4(1) mm by (simp add: S_word_def)
  have a4: "appended g3 (nat_le_bytes ?m ?a) g4"
    using g4(2) mm by (simp add: word_bytes_nat)
  have r4: "g_bufn g4 + (?sz - ?m) \<le> length (g_buf g4)"
    using r3 a4 by (simp add: appended_def split: if_splits)
  obtain g5 where g5: "pad_zeros (?sz - ?m) g4 = Ok () g5" "appended g4 (replicate (?sz - ?m) 0) g5"
    using pad_zeros_spec [OF r4] by blast
  have st5: "g_st g5 = cur # rest"
    using fr(1) g0(2) g1(2) g2(2) g3(2) a4 g5(2) by (simp add: reserved_def appended_def)
  obtain g' where g': "writeAdv g5 = Ok () g'" "stream g' = stream g5"
      "g_st g' = cur\<lparr>i_pos := i_pos cur + 1\<rparr> # rest"
    using writeAdv_stream [OF st5] by blast
  have run: "Bignum b g = Ok () g'"
    using g0(1) g1(1) g2(1) g3(1) wo g5(1) g'(1) by (simp add: unf)
  have pay: "bignum_payload ?a = nat_le_bytes ?m ?a @ replicate (?sz - ?m) 0"
    by (simp add: bignum_payload_def Let_def)
  have len: "length (bignum_payload ?a) div 2 = (?sz + 1) div 2"
    by (auto simp: length_payload elim!: oddE evenE)
  have "stream g5 = stream g @ [TYPE_BIGNUM, ?sign] @ pl (int ((?sz + 1) div 2))
                      @ nat_le_bytes ?m ?a @ replicate (?sz - ?m) 0"
    using g0(2) g1(2) g2(2) g3(2) a4 g5(2)
    by (simp add: reserved_def appended_def stream_def)
  then have "stream g' = stream g @ [TYPE_BIGNUM, ?sign]
                 @ pl (int (length (bignum_payload ?a) div 2)) @ bignum_payload ?a"
    using g'(2) pay len by simp
  then show ?thesis using run g'(3) by blast
qed

lemma Fixnum_bignum_wire:
  assumes i64: "- (2 ^ 63) \<le> n" "n < 2 ^ 63" and out: "n < fixnumMin \<or> n > fixnumMax"
    and fr: "g_st g = cur # rest" "i_pos cur \<noteq> i_cnt cur"
    and buf: "g_bufn g \<le> length (g_buf g)"
  shows "Fixnum n g = Bignum (SetInt64 n) g
       \<and> (\<exists>g'. Fixnum n g = Ok () g' \<and> stream g' = stream g @ bignum_wire n
              \<and> g_st g' = cur\<lparr>i_pos := i_pos cur + 1\<rparr> # rest)"
proof -
  let ?d = "word_of_int \<bar>n\<bar> :: 64 word"
  have n0: "n \<noteq> 0" using out by (auto simp: fixnumMin_def fixnumMax_def)
  have "take_bit 64 \<bar>n\<bar> = \<bar>n\<bar>" using i64 by (intro take_bit_int_eq_self) simp_all
  then have "uint ?d = \<bar>n\<bar>" by (simp add: uint_word_of_int_eq)
  then have ud: "unat ?d = nat \<bar>n\<bar>" by (simp add: unat_eq_nat_uint)
  have d0: "?d \<noteq> 0"
  proof
    assume "?d = 0"
    then have "unat ?d = 0" by simp
    then show False using ud n0 by simp
  qed
  have fx: "Fixnum n g = Bignum (SetInt64 n) g" using out by (simp add: Fixnum_def)
  have bits: "abs_words (SetInt64 n) = [?d]" using n0 by (simp only: SetInt64_def bigInt.simps if_False)
  have ng: "neg (SetInt64 n) = (n < 0)" by (simp add: SetInt64_def)
  show ?thesis
    using Bignum_single_word [OF d0 bits fr buf] fx
    by (simp only: ud ng bignum_wire_def append_Cons append_Nil)
qed


subsection \<open>States reached from a new generator\<close>

lemma gen_fresh_reached: "NewGenerator = Ok () gen_fresh"
  by code_simp

lemma gen_array4_reached: "andThen NewGenerator (StartArray 4) = Ok () gen_array4"
  by code_simp

lemma End_written:
  assumes "g_st g = [cur, par]" and "i_pos cur = i_cnt cur" and "i_pos par + 1 = i_cnt par"
    and "i_typ cur = genStArr"
  shows "written (EndArray g) = Some (stream g)"
  using assms by (simp add: EndArray_def pop_def writeAdv_def Let_def written_def stream_def pending_def)

subsection \<open>The symbol table across calls\<close>

text \<open>
  What a step that returned normally has left of the buffer and the symbol table: no call
  but \<open>Symbol\<close> and \<open>Reset\<close> touches the table.
\<close>

lemma andThen_Ok: "(andThen r f = Ok a g') = (\<exists>x g1. r = Ok x g1 \<and> f g1 = Ok a g')"
  by (cases r) simp_all

lemma andThen_OkU:
  "(andThen (r :: (gerror, unit, Generator) res) f = Ok a g') = (\<exists>g1. r = Ok () g1 \<and> f g1 = Ok a g')"
  by (cases r) simp_all

lemma bind_Ok: "(bind r f = Ok a g') = (\<exists>x g1. r = Ok x g1 \<and> f x g1 = Ok a g')"
  by (cases r) simp_all

lemma checkState_Ok:
  assumes "checkState sz g = Ok () g'"
  shows "g_bufn g' = g_bufn g \<and> g_bufn g + sz \<le> length (g_buf g')
       \<and> length (g_buf g) \<le> length (g_buf g') \<and> same_syms g g'"
  using assms
  by (auto simp: checkState_def same_syms_def Let_def split: list.splits if_splits)

lemma put_Ok:
  assumes "put b g = Ok () g'"
  shows "g_bufn g' = g_bufn g + 1 \<and> g_bufn g' \<le> length (g_buf g')
       \<and> length (g_buf g') = length (g_buf g) \<and> same_syms g g'"
  using assms by (auto simp: put_def same_syms_def split: if_splits)

lemma encodeLong_loop_Ok:
  assumes "encodeLong_loop i n g = Ok () g'"
  shows "g_bufn g' \<le> g_bufn g + 5 \<and> g_bufn g' \<le> length (g_buf g')
       \<and> length (g_buf g') = length (g_buf g) \<and> same_syms g g'"
  using assms
proof (induction i n g rule: encodeLong_loop.induct)
  case (1 i n g)
  let ?g1 = "g\<lparr>g_buf := (g_buf g)[g_bufn g + i := word_of_int (n AND 0xFF)]\<rparr>"
  from "1.prems" have i: "i < 5" and room: "g_bufn g + i < length (g_buf g)"
    by (subst (asm) encodeLong_loop.simps, simp split: if_splits)+
  show ?case
  proof (cases "drop_bit 8 n = 0 \<or> drop_bit 8 n = - 1")
    case True
    then show ?thesis using "1.prems" i room
      by (subst (asm) encodeLong_loop.simps) (auto simp: Let_def same_syms_def split: if_splits)
  next
    case False
    then have "encodeLong_loop (i + 1) (drop_bit 8 n) ?g1 = Ok () g'"
      using "1.prems" i room by (subst (asm) encodeLong_loop.simps) (simp add: Let_def)
    then have "g_bufn g' \<le> g_bufn ?g1 + 5 \<and> g_bufn g' \<le> length (g_buf g')
       \<and> length (g_buf g') = length (g_buf ?g1) \<and> same_syms ?g1 g'"
      using "1.IH" [OF i room refl refl] False by simp
    then show ?thesis by (simp add: same_syms_def)
  qed
qed

lemma encodeLong_Ok:
  assumes "encodeLong n g = Ok () g'"
  shows "g_bufn g' \<le> g_bufn g + 5 \<and> g_bufn g' \<le> length (g_buf g')
       \<and> length (g_buf g') = length (g_buf g) \<and> same_syms g g'"
proof (cases "n = 0 \<or> (0 < n \<and> n < 0x7B) \<or> (- 0x7C < n \<and> n < 0)")
  case True
  then obtain b where "put b g = Ok () g'" using assms by (auto simp: encodeLong_def split: if_splits)
  then show ?thesis using put_Ok by fastforce
next
  case False
  then have "encodeLong_loop 1 n g = Ok () g'" using assms by (auto simp: encodeLong_def split: if_splits)
  then show ?thesis by (rule encodeLong_loop_Ok)
qed

lemma encodeLong_small_Ok:
  assumes "encodeLong (int l) g = Ok () g'" and "l \<le> 30"
  shows "g_bufn g' = g_bufn g + 1 \<and> g_bufn g' \<le> length (g_buf g')
       \<and> length (g_buf g') = length (g_buf g) \<and> same_syms g g'"
proof -
  obtain b where "put b g = Ok () g'" using assms by (auto simp: encodeLong_def split: if_splits)
  then show ?thesis by (rule put_Ok)
qed

lemma copy_str_Ok:
  assumes "copy_str bs g = Ok () g'"
  shows "g_bufn g' = g_bufn g + length bs \<and> length (g_buf g') = length (g_buf g) \<and> same_syms g g'"
  using assms by (auto simp: copy_str_def same_syms_def Let_def split: if_splits)

lemma writeAdv_Ok:
  assumes "writeAdv g = Ok () g'"
  shows "g_bufn g' \<le> g_bufn g \<and> g_buf g' = g_buf g \<and> same_syms g g'"
  using assms by (auto simp: writeAdv_def same_syms_def Let_def split: list.splits if_splits)

lemma same_syms_refl [simp]: "same_syms g g"
  by (simp add: same_syms_def)

lemma same_syms_trans: "same_syms g g1 \<Longrightarrow> same_syms g1 g2 \<Longrightarrow> same_syms g g2"
  by (simp add: same_syms_def)

lemma safe_refl [simp]: "safe g g"
  by (simp add: safe_def)

lemma safe_trans: "safe g g1 \<Longrightarrow> safe g1 g2 \<Longrightarrow> safe g g2"
  by (auto simp: safe_def same_syms_def)

lemma put_safe: "put b g = Ok () g' \<Longrightarrow> safe g g'"
  using put_Ok [of b g g'] by (simp add: safe_def)

lemma write_inner_Ok: "write_inner k d lst w g = Ok w' g' \<Longrightarrow> safe g g'"
proof (induction k arbitrary: d w g)
  case 0
  then show ?case by simp
next
  case (Suc k)
  from Suc.prems obtain g1 where p: "put (ucast d) g = Ok () g1"
    and r: "(if drop_bit 8 d = 0 \<and> lst then Ok (w + 1) g1
             else write_inner k (drop_bit 8 d) lst (w + 1) g1) = Ok w' g'"
    by (auto simp: bind_Ok Let_def)
  have "safe g1 g'" using r Suc.IH by (auto split: if_splits)
  then show ?case using put_safe [OF p] safe_trans by blast
qed

lemma write_outer_Ok: "write_outer i ds l w g = Ok w' g' \<Longrightarrow> safe g g'"
proof (induction ds arbitrary: i w g)
  case Nil
  then show ?case by simp
next
  case (Cons d ds)
  from Cons.prems obtain w1 g1 where a: "write_inner S_word d (int i = int l - 1) w g = Ok w1 g1"
    and b: "write_outer (i + 1) ds l w1 g1 = Ok w' g'"
    by (auto simp: bind_Ok)
  show ?case using write_inner_Ok [OF a] Cons.IH [OF b] safe_trans by blast
qed

lemma pad_zeros_Ok: "pad_zeros k g = Ok () g' \<Longrightarrow> safe g g'"
proof (induction k arbitrary: g)
  case 0
  then show ?case by simp
next
  case (Suc k)
  from Suc.prems obtain g1 where a: "put 0 g = Ok () g1" and b: "pad_zeros k g1 = Ok () g'"
    by (auto simp: andThen_Ok)
  show ?case using put_safe [OF a] Suc.IH [OF b] safe_trans by blast
qed

lemma Nil_keeps: "Nil_val g = Ok () g' \<Longrightarrow> keeps g g'"
proof -
  assume "Nil_val g = Ok () g'"
  then obtain g1 g2 where "checkState 1 g = Ok () g1" "put TYPE_NIL g1 = Ok () g2"
      "writeAdv g2 = Ok () g'"
    by (auto simp: Nil_val_def andThen_Ok)
  then show ?thesis
    using checkState_Ok [of 1 g g1] put_Ok [of TYPE_NIL g1 g2] writeAdv_Ok [of g2 g']
    by (simp add: keeps_def same_syms_def)
qed

lemma Bool_keeps: "Bool b g = Ok () g' \<Longrightarrow> keeps g g'"
proof -
  assume "Bool b g = Ok () g'"
  then obtain g1 g2 where "checkState 1 g = Ok () g1"
      "put (if b then TYPE_TRUE else TYPE_FALSE) g1 = Ok () g2" "writeAdv g2 = Ok () g'"
    by (auto simp: Bool_def andThen_Ok)
  then show ?thesis
    using checkState_Ok [of 1 g g1] put_Ok [of _ g1 g2] writeAdv_Ok [of g2 g']
    by (simp add: keeps_def same_syms_def)
qed

lemma Bignum_keeps: "Bignum b g = Ok () g' \<Longrightarrow> keeps g g'"
proof -
  assume a: "Bignum b g = Ok () g'"
  let ?sz0 = "count_outer 0 (abs_words b) (length (abs_words b)) 0"
  let ?sz = "if ?sz0 AND 1 = 1 then ?sz0 + 1 else ?sz0"
  from a obtain g1 g2 g3 g4 w g5 g6 where
      1: "checkState (2 + fixnumMaxBytes + ?sz) g = Ok () g1"
      and 2: "put TYPE_BIGNUM g1 = Ok () g2"
      and 3: "put (if Sign b < 0 then 0x2D else 0x2B) g2 = Ok () g3"
      and 4: "encodeLong (int ((?sz + 1) div 2)) g3 = Ok () g4"
      and 5: "write_outer 0 (abs_words b) (length (abs_words b)) 0 g4 = Ok w g5"
      and 6: "pad_zeros (?sz - w) g5 = Ok () g6"
      and 7: "writeAdv g6 = Ok () g'"
    unfolding Bignum_def Let_def andThen_OkU bind_Ok by blast
  show ?thesis
    using checkState_Ok [OF 1] put_Ok [OF 2] put_Ok [OF 3] encodeLong_Ok [OF 4]
      write_outer_Ok [OF 5] pad_zeros_Ok [OF 6] writeAdv_Ok [OF 7]
    by (simp add: keeps_def same_syms_def safe_def)
qed

lemma Fixnum_keeps: "Fixnum n g = Ok () g' \<Longrightarrow> keeps g g'"
proof (cases "n < fixnumMin \<or> n > fixnumMax")
  case True
  assume "Fixnum n g = Ok () g'"
  then show ?thesis using True Bignum_keeps by (simp add: Fixnum_def)
next
  case False
  assume "Fixnum n g = Ok () g'"
  then obtain g1 g2 g3 where 1: "checkState (fixnumMaxBytes + 1) g = Ok () g1"
      and 2: "put TYPE_FIXNUM g1 = Ok () g2" and 3: "encodeLong n g2 = Ok () g3"
      and 4: "writeAdv g3 = Ok () g'"
    using False by (auto simp: Fixnum_def andThen_Ok)
  show ?thesis
    using checkState_Ok [OF 1] put_Ok [OF 2] encodeLong_Ok [OF 3] writeAdv_Ok [OF 4]
    by (simp add: keeps_def same_syms_def)
qed

lemma sized_keeps: "sized tag s g = Ok () g' \<Longrightarrow> keeps g g'"
proof -
  assume "sized tag s g = Ok () g'"
  then obtain g1 g2 g3 g4 where 1: "checkState (1 + fixnumMaxBytes + length s) g = Ok () g1"
      and 2: "put tag g1 = Ok () g2" and 3: "encodeLong (int (length s)) g2 = Ok () g3"
      and 4: "copy_str (str_bytes s) g3 = Ok () g4" and 5: "writeAdv g4 = Ok () g'"
    by (auto simp: sized_def Let_def andThen_Ok)
  show ?thesis
    using checkState_Ok [OF 1] put_Ok [OF 2] encodeLong_Ok [OF 3] copy_str_Ok [OF 4]
      writeAdv_Ok [OF 5]
    by (simp add: keeps_def same_syms_def str_bytes_def fixnumMaxBytes_def)
qed

lemma Float_keeps:
  assumes "Float repr g = Ok () g'" and "length repr \<le> 30"
  shows "keeps g g'"
proof -
  from assms(1) obtain g1 g2 where 1: "checkState (1 + 1 + 30) g = Ok () g1"
      and 2: "put TYPE_FLOAT g1 = Ok () g2"
      and r: "(if g_bufn g2 + 1 \<le> length (g_buf g2) then
         (let l = length repr;
              g1 = (if g_bufn g2 + 1 + l \<le> length (g_buf g2)
                    then g2\<lparr>g_buf := take (g_bufn g2 + 1) (g_buf g2) @ repr
                                     @ drop (g_bufn g2 + 1 + l) (g_buf g2)\<rparr>
                    else g2)
          in andThen (encodeLong (int l) g1) (\<lambda>g.
               writeAdv (g\<lparr>g_bufn := g_bufn g + l\<rparr>)))
       else Panic SliceBounds) = Ok () g'"
    unfolding Float_def andThen_OkU by blast
  note c = checkState_Ok [OF 1] and p = put_Ok [OF 2]
  have fits: "g_bufn g2 + 1 + length repr \<le> length (g_buf g2)" using c p assms(2) by simp
  define g3 where "g3 = g2\<lparr>g_buf := take (g_bufn g2 + 1) (g_buf g2) @ repr
                                     @ drop (g_bufn g2 + 1 + length repr) (g_buf g2)\<rparr>"
  have l3: "length (g_buf g3) = length (g_buf g2)" "g_bufn g3 = g_bufn g2" "same_syms g2 g3"
    using fits by (simp_all add: g3_def same_syms_def)
  from r fits obtain g4 where 4: "encodeLong (int (length repr)) g3 = Ok () g4"
      and 5: "writeAdv (g4\<lparr>g_bufn := g_bufn g4 + length repr\<rparr>) = Ok () g'"
    by (auto simp: Let_def andThen_Ok g3_def split: if_splits)
  show ?thesis
    using c p l3 encodeLong_small_Ok [OF 4 assms(2)] writeAdv_Ok [OF 5] assms(2)
    by (simp add: keeps_def same_syms_def)
qed

lemma StartArray_keeps: "StartArray l g = Ok () g' \<Longrightarrow> keeps g g'"
proof -
  assume "StartArray l g = Ok () g'"
  then obtain g1 g2 g3 where 1: "checkState (1 + fixnumMaxBytes) g = Ok () g1"
      and 2: "put TYPE_ARRAY g1 = Ok () g2" and 3: "encodeLong l g2 = Ok () g3"
      and 4: "g' = g3\<lparr>g_st := push genStArr l (g_st g3)\<rparr>"
    by (auto simp: StartArray_def andThen_Ok)
  show ?thesis
    using checkState_Ok [OF 1] put_Ok [OF 2] encodeLong_Ok [OF 3] 4
    by (simp add: keeps_def same_syms_def)
qed

lemma StartHash_keeps: "StartHash l g = Ok () g' \<Longrightarrow> keeps g g'"
proof -
  assume "StartHash l g = Ok () g'"
  then obtain g1 g2 g3 where 1: "checkState (1 + fixnumMaxBytes) g = Ok () g1"
      and 2: "put TYPE_HASH g1 = Ok () g2" and 3: "encodeLong l g2 = Ok () g3"
      and 4: "g' = g3\<lparr>g_st := push genStHash (l * 2) (g_st g3)\<rparr>"
    by (auto simp: StartHash_def andThen_Ok)
  show ?thesis
    using checkState_Ok [OF 1] put_Ok [OF 2] encodeLong_Ok [OF 3] 4
    by (simp add: keeps_def same_syms_def)
qed

lemma End_keeps:
  assumes "EndArray g = Ok () g' \<or> EndHash g = Ok () g'" and "g_bufn g \<le> length (g_buf g)"
  shows "keeps g g'"
proof -
  from assms(1) have "writeAdv (g\<lparr>g_st := pop (g_st g)\<rparr>) = Ok () g'"
    by (auto simp: EndArray_def EndHash_def split: list.splits if_splits)
  from writeAdv_Ok [OF this] show ?thesis using assms(2)
    by (simp add: keeps_def same_syms_def)
qed

lemma inv_keeps: "gen_inv g \<Longrightarrow> keeps g g' \<Longrightarrow> gen_inv g' \<and> live g' = live g"
  by (simp add: gen_inv_def keeps_def same_syms_def live_def)


lemma call_keeps:
  assumes "call grow c g = Ok () g'" and "op_ok (Write c)" and "\<forall>s. c \<noteq> CallSymbol s"
  shows "keeps g g'"
  using assms Nil_keeps Bool_keeps Fixnum_keeps Bignum_keeps sized_keeps Float_keeps
    StartArray_keeps StartHash_keeps
  by (cases c) (simp_all add: String_def Class_def Module_def)

lemma Reset_Ok:
  assumes "Reset g = Ok () g'" and "gen_inv g"
  shows "gen_inv g' \<and> live g' = []"
  using assms by (auto simp: Reset_def gen_inv_def live_def split: if_splits)

lemma Symbol_Ok:
  assumes i: "gen_inv g" and grow: "0 < grow" and ok: "Symbol grow s g = Ok () g'"
  shows "gen_inv g' \<and> live g' = (if s \<in> set (live g) then live g else live g @ [s])"
proof -
  let ?g = "if length (g_symTbl g) = 0 \<or> length (g_symTbl g) = g_symCount g
            then g\<lparr>g_symTbl := g_symTbl g @ replicate grow []\<rparr> else g"
  have tbl: "g_symCount g \<le> length (g_symTbl g)" using i by (simp add: gen_inv_def)
  have lv: "live ?g = live g" using tbl by (simp add: live_def)
  have room: "g_symCount ?g < length (g_symTbl ?g)" using tbl grow by auto
  have ig: "gen_inv ?g" using i by (simp add: gen_inv_def)
  have scan: "symScan 0 (g_symCount ?g) (g_symTbl ?g) s =
      (if s \<in> set (live g) then Found (index_of s (live g)) else NotFound)"
    using symScan_spec [of "g_symCount ?g" "g_symTbl ?g" 0 s] room lv
    by (simp add: live_def del: if_split)
  have unf: "Symbol grow s g =
      (case symScan 0 (g_symCount ?g) (g_symTbl ?g) s of
         ScanPanic \<Rightarrow> Panic IndexOutOfRange
       | Found i \<Rightarrow>
           andThen (checkState (1 + fixnumMaxBytes) ?g) (\<lambda>g.
           andThen (put TYPE_SYMLINK g) (\<lambda>g.
           andThen (encodeLong (int i) g) writeAdv))
       | NotFound \<Rightarrow>
           andThen (checkState (1 + fixnumMaxBytes + length s) ?g) (\<lambda>g.
           andThen (put TYPE_SYMBOL g) (\<lambda>g.
           andThen (encodeLong (int (length s)) g) (\<lambda>g.
           andThen (copy_str (str_bytes s) g) (\<lambda>g.
             if g_symCount g < length (g_symTbl g)
             then writeAdv (g\<lparr>g_symTbl := (g_symTbl g)[g_symCount g := s],
                               g_symCount := g_symCount g + 1\<rparr>)
             else Panic IndexOutOfRange)))))"
    unfolding Symbol_def Let_def by (rule refl)
  show ?thesis
  proof (cases "s \<in> set (live g)")
    case True
    have "andThen (checkState (1 + fixnumMaxBytes) ?g) (\<lambda>h.
           andThen (put TYPE_SYMLINK h) (\<lambda>h.
           andThen (encodeLong (int (index_of s (live g))) h) writeAdv)) = Ok () g'"
      using ok unfolding unf scan by (simp only: True if_True scan_result.case)
    then obtain g1 g2 g3 where 1: "checkState (1 + fixnumMaxBytes) ?g = Ok () g1"
        and 2: "put TYPE_SYMLINK g1 = Ok () g2"
        and 3: "encodeLong (int (index_of s (live g))) g2 = Ok () g3"
        and 4: "writeAdv g3 = Ok () g'"
      unfolding andThen_OkU by blast
    have "keeps ?g g'"
      using checkState_Ok [OF 1] put_Ok [OF 2] encodeLong_Ok [OF 3] writeAdv_Ok [OF 4]
      unfolding keeps_def same_syms_def by simp
    from inv_keeps [OF ig this] show ?thesis using lv True by simp
  next
    case False
    have "andThen (checkState (1 + fixnumMaxBytes + length s) ?g) (\<lambda>g.
           andThen (put TYPE_SYMBOL g) (\<lambda>g.
           andThen (encodeLong (int (length s)) g) (\<lambda>g.
           andThen (copy_str (str_bytes s) g) (\<lambda>g.
             if g_symCount g < length (g_symTbl g)
             then writeAdv (g\<lparr>g_symTbl := (g_symTbl g)[g_symCount g := s],
                               g_symCount := g_symCount g + 1\<rparr>)
             else Panic IndexOutOfRange)))) = Ok () g'"
      using ok unfolding unf scan by (simp only: False if_False scan_result.case)
    then obtain g1 g2 g3 g4 where 1: "checkState (1 + fixnumMaxBytes + length s) ?g = Ok () g1"
        and 2: "put TYPE_SYMBOL g1 = Ok () g2"
        and 3: "encodeLong (int (length s)) g2 = Ok () g3"
        and 4: "copy_str (str_bytes s) g3 = Ok () g4"
        and 5: "(if g_symCount g4 < length (g_symTbl g4)
             then writeAdv (g4\<lparr>g_symTbl := (g_symTbl g4)[g_symCount g4 := s],
                               g_symCount := g_symCount g4 + 1\<rparr>)
             else Panic IndexOutOfRange) = Ok () g'"
      unfolding andThen_OkU by blast
    let ?g5 = "g4\<lparr>g_symTbl := (g_symTbl g4)[g_symCount g4 := s], g_symCount := g_symCount g4 + 1\<rparr>"
    have k4: "keeps ?g g4"
      using checkState_Ok [OF 1] put_Ok [OF 2] encodeLong_Ok [OF 3] copy_str_Ok [OF 4]
      unfolding keeps_def same_syms_def by (simp add: str_bytes_def fixnumMaxBytes_def)
    have t4: "g_symCount g4 = g_symCount ?g" "g_symTbl g4 = g_symTbl ?g"
      using k4 unfolding keeps_def same_syms_def by blast+
    have room4: "g_symCount g4 < length (g_symTbl g4)" using room unfolding t4 .
    have i4: "gen_inv g4" using inv_keeps [OF ig k4] by simp
    from 5 room4 have 6: "writeAdv ?g5 = Ok () g'" by simp
    have "live ?g5 = take (g_symCount g4) (g_symTbl g4) @ [s]"
      using room4 by (simp add: live_def take_Suc_conv_app_nth)
    also have "take (g_symCount g4) (g_symTbl g4) = live ?g" unfolding t4 live_def ..
    finally have l5: "live ?g5 = live g @ [s]" unfolding lv .
    have i5: "gen_inv ?g5" using i4 room4 by (simp add: gen_inv_def)
    have "keeps ?g5 g'" using writeAdv_Ok [OF 6] i5 by (simp add: keeps_def gen_inv_def)
    from inv_keeps [OF i5 this] show ?thesis using l5 False by simp
  qed
qed

lemma run_live:
  assumes "gen_inv g" and "live g = first_seen acc" and "0 < grow" and "list_all op_ok cs"
    and "run grow cs g = Ok () g'"
  shows "gen_inv g' \<and> live g' = first_seen (syms_from acc cs)"
  using assms
proof (induction cs arbitrary: g acc)
  case Nil
  then show ?case by simp
next
  case (Cons c cs)
  from Cons.prems(5) obtain g1 where s1: "step grow c g = Ok () g1" and r1: "run grow cs g1 = Ok () g'"
    by (auto simp: andThen_OkU)
  have ok: "op_ok c" "list_all op_ok cs" using Cons.prems(4) by simp_all
  show ?case
  proof (cases "\<exists>s. c = Write (CallSymbol s)")
    case True
    then obtain s where c: "c = Write (CallSymbol s)" by blast
    have "gen_inv g1 \<and> live g1 = first_seen (acc @ [s])"
      using Symbol_Ok [OF Cons.prems(1,3), of s g1] s1 c Cons.prems(2)
      by (simp add: first_seen_snoc)
    then show ?thesis using Cons.IH [OF _ _ Cons.prems(3) ok(2) r1, of "acc @ [s]"] c by simp
  next
    case False
    show ?thesis
    proof (cases c)
      case (Write gc)
      then have ns: "\<forall>s. gc \<noteq> CallSymbol s" using False by simp
      have "keeps g g1" using call_keeps [of grow gc g g1] s1 Write ok(1) ns by simp
      then have "gen_inv g1 \<and> live g1 = first_seen acc"
        using inv_keeps [OF Cons.prems(1)] Cons.prems(2) by simp
      moreover have "syms_from acc (c # cs) = syms_from acc cs"
        using Write ns by (cases gc) simp_all
      ultimately show ?thesis using Cons.IH [OF _ _ Cons.prems(3) ok(2) r1, of acc] by simp
    next
      case OpEndArray
      have "keeps g g1" using End_keeps [of g g1] s1 OpEndArray Cons.prems(1) by (simp add: gen_inv_def)
      then have "gen_inv g1 \<and> live g1 = first_seen acc"
        using inv_keeps [OF Cons.prems(1)] Cons.prems(2) by simp
      then show ?thesis using Cons.IH [OF _ _ Cons.prems(3) ok(2) r1, of acc] OpEndArray by simp
    next
      case OpEndHash
      have "keeps g g1" using End_keeps [of g g1] s1 OpEndHash Cons.prems(1) by (simp add: gen_inv_def)
      then have "gen_inv g1 \<and> live g1 = first_seen acc"
        using inv_keeps [OF Cons.prems(1)] Cons.prems(2) by simp
      then show ?thesis using Cons.IH [OF _ _ Cons.prems(3) ok(2) r1, of acc] OpEndHash by simp
    next
      case OpReset
      have "gen_inv g1 \<and> live g1 = first_seen []"
        using Reset_Ok [of g g1] s1 OpReset Cons.prems(1) by (simp add: first_seen_def)
      then show ?thesis using Cons.IH [OF _ _ Cons.prems(3) ok(2) r1, of "[]"] OpReset by simp
    qed
  qed
qed

lemma reached_live:
  assumes "andThen NewGenerator (run grow ops) = Ok () g" and "0 < grow" and "list_all op_ok ops"
  shows "gen_inv g \<and> live g = first_seen (stream_syms ops)"
proof -
  have r: "run grow ops gen_fresh = Ok () g" using assms(1) by (simp add: gen_fresh_reached)
  have "gen_inv gen_fresh" "live gen_fresh = first_seen []"
    by (simp_all add: gen_inv_def live_def first_seen_def gen_fresh_def)
  from run_live [OF this assms(2,3) r] show ?thesis by (simp add: stream_syms_def)
qed

lemma gen_nested_reached:
  "andThen NewGenerator (run 8 [Write (CallStartArray 2), Write (CallSymbol ''foo''),
      Write (CallStartArray 1)]) = Ok () gen_nested"
  by code_simp


lemma andThen_return: "andThen (r :: (gerror, unit, Generator) res) (Ok ()) = r"
  by (cases r) simp_all

lemma andThen_assoc: "andThen (andThen r f) h = andThen r (\<lambda>g. andThen (f g) h)"
  by (cases r) simp_all

lemma run_Nil: "run grow [] = Ok ()"
  by (rule ext) simp

lemma run_append: "run grow (xs @ ys) = (\<lambda>g. andThen (run grow xs g) (run grow ys))"
proof (induction xs)
  case Nil
  show ?case by (rule ext) simp
next
  case (Cons x xs)
  show ?case by (rule ext) (simp add: andThen_assoc Cons.IH)
qed

lemma run_symbols: "run grow (map (\<lambda>s. Write (CallSymbol s)) ss) = symbols grow ss"
proof (induction ss)
  case Nil
  show ?case by (rule ext) simp
next
  case (Cons s ss)
  show ?case by (rule ext) (simp add: Cons.IH)
qed

lemma foo_bar_array:
  assumes "0 < grow"
  shows "written (andThen NewGenerator (run grow
            [Write (CallStartArray 4), Write (CallSymbol ''foo''), Write (CallSymbol ''bar''),
             Write (CallSymbol ''bar''), Write (CallSymbol ''foo''), OpEndArray]))
         = Some [0x04, 0x08, 0x5B, 0x09, 0x3A, 0x08, 0x66, 0x6F, 0x6F, 0x3A, 0x08, 0x62, 0x61,
                 0x72, 0x3B, 0x06, 0x3B, 0x00]"
proof -
  let ?ss = "[''foo'', ''bar'', ''bar'', ''foo'']"
  have lv4: "live gen_array4 = first_seen []" by (simp add: live_def first_seen_def gen_array4_def)
  obtain g' where g': "symbols grow ?ss gen_array4 = Ok () g'"
      "stream g' = stream gen_array4 @ concat (map (sym_wire ([] @ ?ss)) [length ([]::string list) ..< length ([]::string list) + length ?ss])"
      "g_st g' = \<lparr>i_cnt = 4, i_pos = 0, i_typ = genStArr\<rparr>\<lparr>i_pos := i_pos \<lparr>i_cnt = 4, i_pos = 0, i_typ = genStArr\<rparr> + int (length ?ss)\<rparr>
                  # [\<lparr>i_cnt = 1, i_pos = 0, i_typ = genStTop\<rparr>]"
    using symbols_run [OF lv4, of "\<lparr>i_cnt = 4, i_pos = 0, i_typ = genStArr\<rparr>"
        "[\<lparr>i_cnt = 1, i_pos = 0, i_typ = genStTop\<rparr>]" ?ss grow] assms
    by (auto simp: gen_array4_def)
  have w: "sym_wire ?ss 0 @ sym_wire ?ss (Suc 0) @ sym_wire ?ss (Suc (Suc 0))
               @ sym_wire ?ss (Suc (Suc (Suc 0)))
             = [0x3A, 0x08, 0x66, 0x6F, 0x6F, 0x3A, 0x08, 0x62, 0x61, 0x72, 0x3B, 0x06, 0x3B, 0x00]"
    by code_simp
  have s4: "stream gen_array4 = [0x04, 0x08, 0x5B, 0x09]"
    by (simp add: stream_def pending_def gen_array4_def)
  have st': "g_st g' = [\<lparr>i_cnt = 4, i_pos = 4, i_typ = genStArr\<rparr>,
                        \<lparr>i_cnt = 1, i_pos = 0, i_typ = genStTop\<rparr>]"
    using g'(3) by simp
  have e: "written (EndArray g') = Some (stream g')"
    by (rule End_written [OF st']) simp_all
  have "run grow ([Write (CallStartArray 4)] @ map (\<lambda>s. Write (CallSymbol s)) ?ss @ [OpEndArray]) gen_fresh
          = andThen (andThen (StartArray 4 gen_fresh) (symbols grow ?ss)) EndArray"
    unfolding run_append run_symbols by (simp add: run_Nil andThen_return andThen_assoc)
  also have "StartArray 4 gen_fresh = Ok () gen_array4"
    using gen_array4_reached by (simp add: gen_fresh_reached)
  finally have "run grow ([Write (CallStartArray 4)] @ map (\<lambda>s. Write (CallSymbol s)) ?ss @ [OpEndArray]) gen_fresh
          = EndArray g'"
    using g'(1) by simp
  then have "written (andThen NewGenerator (run grow
            ([Write (CallStartArray 4)] @ map (\<lambda>s. Write (CallSymbol s)) ?ss @ [OpEndArray])))
         = Some ([0x04, 0x08, 0x5B, 0x09] @ [0x3A, 0x08, 0x66, 0x6F, 0x6F, 0x3A, 0x08, 0x62, 0x61, 0x72,
                    0x3B, 0x06, 0x3B, 0x00])"
    using e g'(2) w s4 by (simp add: gen_fresh_reached)
  then show ?thesis by simp
qed

text \<open>
  C2. Every \<open>Symbol\<close> call of a stream, wherever it stands. Let any sequence of calls
  (values, nested arrays and hashes, their ends, also a \<open>Reset\<close> that starts a new stream)
  have returned normally since \<open>NewGenerator\<close>, and let \<open>ss\<close> be the strings of the \<open>Symbol\<close>
  calls of the current stream so far. Then the symbol table in use is the list of the
  distinct strings of \<open>ss\<close> in order of first appearance, and a further \<open>Symbol s\<close> in a frame
  that is not full returns normally, counts one value and appends to the stream:
  when \<open>s\<close> has not occurred in \<open>ss\<close>, the symbol tag, the packed length and the bytes of
  \<open>s\<close>, and \<open>s\<close> takes as id the number of distinct strings before it (so ids run 0, 1,
  2, ... in first-appearance order); when \<open>s\<close> has occurred, the symlink tag and the packed
  id that \<open>s\<close> was given at its first appearance. In particular the array
  \<open>[:foo, :bar, :bar, :foo]\<close> is written as
  \<open>04 08 5B 09 3A 08 66 6F 6F 3A 08 62 61 72 3B 06 3B 00\<close>. The growth step of the symbol
  table, whose constant is not part of the sources, is any positive \<open>grow\<close>; strings and
  table are shorter than \<open>2^32\<close>, beyond which \<open>encodeLong\<close> panics.
\<close>

theorem symbols_first_appearance:
  assumes "andThen NewGenerator (run grow ops) = Ok () g"
    and "0 < grow" and "list_all op_ok ops"
    and "g_st g = cur # rest" and "i_pos cur \<noteq> i_cnt cur"
    and "int (length s) < 2 ^ 32" and "int (length (first_seen (stream_syms ops))) < 2 ^ 32"
  shows "live g = first_seen (stream_syms ops)
       \<and> (\<exists>g'. Symbol grow s g = Ok () g'
              \<and> stream g' = stream g @ sym_wire (stream_syms ops @ [s]) (length (stream_syms ops))
              \<and> live g' = first_seen (stream_syms ops @ [s])
              \<and> g_st g' = cur\<lparr>i_pos := i_pos cur + 1\<rparr> # rest)
       \<and> (s \<notin> set (stream_syms ops) \<longrightarrow>
             sym_wire (stream_syms ops @ [s]) (length (stream_syms ops))
               = TYPE_SYMBOL # pl (int (length s)) @ str_bytes s
             \<and> sym_id (stream_syms ops @ [s]) s = card (set (stream_syms ops)))
       \<and> (s \<in> set (stream_syms ops) \<longrightarrow>
             sym_wire (stream_syms ops @ [s]) (length (stream_syms ops))
               = TYPE_SYMLINK # pl (int (sym_id (stream_syms ops) s))
             \<and> (\<forall>i < length (stream_syms ops).
                  stream_syms ops ! i = s \<and> s \<notin> set (take i (stream_syms ops)) \<longrightarrow>
                  sym_id (stream_syms ops) s = card (set (take i (stream_syms ops)))))
       \<and> written (andThen NewGenerator (run grow
            [Write (CallStartArray 4), Write (CallSymbol ''foo''), Write (CallSymbol ''bar''),
             Write (CallSymbol ''bar''), Write (CallSymbol ''foo''), OpEndArray]))
           = Some [0x04, 0x08, 0x5B, 0x09, 0x3A, 0x08, 0x66, 0x6F, 0x6F, 0x3A, 0x08, 0x62, 0x61,
                   0x72, 0x3B, 0x06, 0x3B, 0x00]"
proof -
  let ?ss = "stream_syms ops"
  have r: "gen_inv g" "live g = first_seen ?ss"
    using reached_live [OF assms(1,2,3)] by simp_all
  have c32: "int (g_symCount g) < 2 ^ 32"
  proof -
    have "g_symCount g = length (live g)" using r(1) by (simp add: gen_inv_def live_def)
    then show ?thesis using r(2) assms(7) by simp
  qed
  have wire: "sym_wire (?ss @ [s]) (length ?ss) =
     (if s \<in> set ?ss then TYPE_SYMLINK # pl (int (index_of s (first_seen ?ss)))
      else TYPE_SYMBOL # pl (int (length s)) @ str_bytes s)"
    using sym_wire_at [of ?ss s "[]"] by simp
  obtain g' where g': "Symbol grow s g = Ok () g'"
      "stream g' = stream g @ (if s \<in> set (live g) then TYPE_SYMLINK # pl (int (index_of s (live g)))
                               else TYPE_SYMBOL # pl (int (length s)) @ str_bytes s)"
      "live g' = (if s \<in> set (live g) then live g else live g @ [s])"
      "g_st g' = cur\<lparr>i_pos := i_pos cur + 1\<rparr> # rest"
    using Symbol_step [OF assms(4,5) _ _ assms(2,6) c32] r(1) unfolding gen_inv_def by blast
  have step: "\<exists>g'. Symbol grow s g = Ok () g'
              \<and> stream g' = stream g @ sym_wire (?ss @ [s]) (length ?ss)
              \<and> live g' = first_seen (?ss @ [s])
              \<and> g_st g' = cur\<lparr>i_pos := i_pos cur + 1\<rparr> # rest"
    using g' r(2) wire by (intro exI [of _ g']) (simp add: first_seen_snoc)
  have first: "s \<notin> set ?ss \<longrightarrow>
             sym_wire (?ss @ [s]) (length ?ss) = TYPE_SYMBOL # pl (int (length s)) @ str_bytes s
             \<and> sym_id (?ss @ [s]) s = card (set ?ss)"
    using wire sym_id_first [of "length ?ss" "?ss @ [s]"] by simp
  have later: "s \<in> set ?ss \<longrightarrow>
             sym_wire (?ss @ [s]) (length ?ss) = TYPE_SYMLINK # pl (int (sym_id ?ss s))
             \<and> (\<forall>i < length ?ss. ?ss ! i = s \<and> s \<notin> set (take i ?ss) \<longrightarrow>
                  sym_id ?ss s = card (set (take i ?ss)))"
    using wire sym_id_first [of _ ?ss] by (auto simp: sym_id_def)
  show ?thesis using r(2) step first later foo_bar_array [OF assms(2)] by blast
qed

theorem symbols_first_appearance_witness:
  "\<exists>g'. Symbol 8 ''foo'' gen_nested = Ok () g'
         \<and> stream g' = [0x04, 0x08, 0x5B, 0x07, 0x3A, 0x08, 0x66, 0x6F, 0x6F, 0x5B, 0x06, 0x3B, 0x00]
         \<and> live g' = [''foo'']"
proof -
  let ?ops = "[Write (CallStartArray 2), Write (CallSymbol ''foo''), Write (CallStartArray 1)]"
  have y: "stream_syms ?ops = [''foo'']" by (simp add: stream_syms_def)
  have w: "sym_wire ([''foo''] @ [''foo'']) (length [''foo'']) = [0x3B, 0x00]" by code_simp
  have f: "first_seen ([''foo''] @ [''foo'']) = [''foo'']" by code_simp
  have sn: "stream gen_nested = [0x04, 0x08, 0x5B, 0x07, 0x3A, 0x08, 0x66, 0x6F, 0x6F, 0x5B, 0x06]"
    by (simp add: stream_def pending_def gen_nested_def)
  have h: "0 < (8::nat)" "list_all op_ok ?ops"
      "g_st gen_nested = \<lparr>i_cnt = 1, i_pos = 0, i_typ = genStArr\<rparr>
           # [\<lparr>i_cnt = 2, i_pos = 1, i_typ = genStArr\<rparr>, \<lparr>i_cnt = 1, i_pos = 0, i_typ = genStTop\<rparr>]"
      "i_pos \<lparr>i_cnt = 1, i_pos = 0, i_typ = genStArr\<rparr> \<noteq> i_cnt \<lparr>i_cnt = 1, i_pos = 0, i_typ = genStArr\<rparr>"
      "int (length ''foo'') < 2 ^ 32" "int (length (first_seen (stream_syms ?ops))) < 2 ^ 32"
    by (simp_all add: gen_nested_def y first_seen_def)
  have "\<exists>g'. Symbol 8 ''foo'' gen_nested = Ok () g'
              \<and> stream g' = stream gen_nested @ sym_wire (stream_syms ?ops @ [''foo'']) (length (stream_syms ?ops))
              \<and> live g' = first_seen (stream_syms ?ops @ [''foo''])
              \<and> g_st g' = \<lparr>i_cnt = 1, i_pos = 0, i_typ = genStArr\<rparr>\<lparr>i_pos := i_pos \<lparr>i_cnt = 1, i_pos = 0, i_typ = genStArr\<rparr> + 1\<rparr>
                   # [\<lparr>i_cnt = 2, i_pos = 1, i_typ = genStArr\<rparr>, \<lparr>i_cnt = 1, i_pos = 0, i_typ = genStTop\<rparr>]"
    by (rule symbols_first_appearance [OF gen_nested_reached h, THEN conjunct2, THEN conjunct1])
  then show ?thesis unfolding y w f sn by auto
qed

subsection \<open>Out-of-range fixnums\<close>

text \<open>
  C4. For every 64-bit \<open>n\<close> outside the fixnum range, \<open>Fixnum n\<close> is the call
  \<open>Bignum (SetInt64 n)\<close>; in a frame that is not full it succeeds, counts one value and appends
  the bignum wire form: the bignum tag, the sign byte \<open>+\<close> or \<open>-\<close>, the packed count of 16-bit
  words, and the payload. The payload has an even number of bytes, is the little-endian
  representation of \<open>\<bar>n\<bar>\<close>, and is its minimal byte length plus one zero byte exactly when that
  length is odd. In particular \<open>Fixnum 0xDEADCAFEBEEF\<close> on a fresh generator writes
  \<open>04 08 6C 2B 08 EF BE FE CA AD DE\<close>: sign \<open>+\<close>, word count 3 (packed as \<open>08\<close>) and the six
  payload bytes.\<close>

theorem fixnum_out_of_range_is_bignum:
  assumes "- (2 ^ 63) \<le> n" and "n < 2 ^ 63" and "n < fixnumMin \<or> n > fixnumMax"
    and "g_st g = cur # rest" and "i_pos cur \<noteq> i_cnt cur"
    and "g_bufn g \<le> length (g_buf g)"
  shows "Fixnum n g = Bignum (SetInt64 n) g
       \<and> (\<exists>g'. Fixnum n g = Ok () g' \<and> stream g' = stream g @ bignum_wire n
              \<and> g_st g' = cur\<lparr>i_pos := i_pos cur + 1\<rparr> # rest)
       \<and> even (length (bignum_payload (nat \<bar>n\<bar>)))
       \<and> le_val (bignum_payload (nat \<bar>n\<bar>)) = nat \<bar>n\<bar>
       \<and> length (bignum_payload (nat \<bar>n\<bar>))
           = (if odd (byte_len (nat \<bar>n\<bar>)) then byte_len (nat \<bar>n\<bar>) + 1 else byte_len (nat \<bar>n\<bar>))
       \<and> 256 ^ (byte_len (nat \<bar>n\<bar>) - 1) \<le> nat \<bar>n\<bar> \<and> nat \<bar>n\<bar> < 256 ^ byte_len (nat \<bar>n\<bar>)
       \<and> written (andThen NewGenerator (Fixnum 0xDEADCAFEBEEF))
           = Some [0x04, 0x08, 0x6C, 0x2B, 0x08, 0xEF, 0xBE, 0xFE, 0xCA, 0xAD, 0xDE]"
proof -
  have n0: "0 < nat \<bar>n\<bar>" using assms(3) by (auto simp: fixnumMin_def fixnumMax_def)
  have c: "written (andThen NewGenerator (Fixnum 0xDEADCAFEBEEF))
           = Some [0x04, 0x08, 0x6C, 0x2B, 0x08, 0xEF, 0xBE, 0xFE, 0xCA, 0xAD, 0xDE]"
    by code_simp
  show ?thesis
    using Fixnum_bignum_wire [OF assms] even_length_payload [of "nat \<bar>n\<bar>"]
      le_val_payload [of "nat \<bar>n\<bar>"] length_payload [of "nat \<bar>n\<bar>"]
      byte_len_minimal [OF n0] less_pow_byte_len [of "nat \<bar>n\<bar>"] c
    by blast
qed

theorem fixnum_out_of_range_is_bignum_witness:
  "\<exists>g'. Fixnum 0xDEADCAFEBEEF gen_fresh = Ok () g'
         \<and> stream g' = [0x04, 0x08, 0x6C, 0x2B, 0x08, 0xEF, 0xBE, 0xFE, 0xCA, 0xAD, 0xDE]"
proof -
  have b: "byte_len 0xDEADCAFEBEEF = 6"
    by (simp add: byte_len.simps)
  have w: "bignum_wire 0xDEADCAFEBEEF = [0x6C, 0x2B, 0x08, 0xEF, 0xBE, 0xFE, 0xCA, 0xAD, 0xDE]"
    by (simp add: bignum_wire_def bignum_payload_def nat_le_bytes_def b Let_def pl_def upt_rec
          type_tags)
  have s: "stream gen_fresh = [0x04, 0x08]"
    by (simp add: stream_def pending_def gen_fresh_def)
  have h: "- (2 ^ 63) \<le> (0xDEADCAFEBEEF::int)" "(0xDEADCAFEBEEF::int) < 2 ^ 63"
      "(0xDEADCAFEBEEF::int) < fixnumMin \<or> 0xDEADCAFEBEEF > fixnumMax"
      "g_st gen_fresh = \<lparr>i_cnt = 1, i_pos = 0, i_typ = genStTop\<rparr> # []"
      "i_pos \<lparr>i_cnt = 1, i_pos = 0, i_typ = genStTop\<rparr> \<noteq> i_cnt \<lparr>i_cnt = 1, i_pos = 0, i_typ = genStTop\<rparr>"
      "g_bufn gen_fresh \<le> length (g_buf gen_fresh)"
    by (simp_all add: gen_fresh_def fixnumMin_def fixnumMax_def)
  have "\<exists>g'. Fixnum 0xDEADCAFEBEEF gen_fresh = Ok () g'
          \<and> stream g' = stream gen_fresh @ bignum_wire 0xDEADCAFEBEEF
          \<and> g_st g' = \<lparr>i_cnt = 1, i_pos = 0, i_typ = genStTop\<rparr>\<lparr>i_pos := i_pos \<lparr>i_cnt = 1, i_pos = 0, i_typ = genStTop\<rparr> + 1\<rparr> # []"
    by (rule fixnum_out_of_range_is_bignum [OF h, THEN conjunct2, THEN conjunct1])
  then show ?thesis unfolding w s by auto
qed

section \<open>Properties of the parser\<close>

lemma tokens_numeral:
  "tokens (numeral k) p =
     (case Next p of
        Ok t p' \<Rightarrow> Tok t # tokens (pred_numeral k) p'
      | Err e _ \<Rightarrow> [Failed e]
      | Panic x \<Rightarrow> [Panicked x])"
  by (simp add: numeral_eq_Suc)

lemma after_n_numeral:
  "after_n (numeral k) p =
     (case Next p of Ok _ p' \<Rightarrow> after_n (pred_numeral k) p' | Err _ _ \<Rightarrow> None | Panic _ \<Rightarrow> None)"
  by (simp add: numeral_eq_Suc)

lemmas parser_eval = tokens_numeral after_n_numeral Next_def Next_adv_def adv_def adv_switch_def advIVar_def long_def fill_def
  fill_loop.simps long_pos_loop.simps long_neg_loop.simps buf_at_def buf_slice_def wrapErr_def
  sizedBlob_def pushStack_def popStack_def NewParser_def bufInitSz_def overwrite_def Let_def
  type_tags nth_append wrap_int_def LinkId_def

subsection \<open>End of input\<close>

text \<open>
  C6, evaluated where it fails. The stream \<open>04 08 5B 07 30\<close> is an array of declared size
  two that breaks off after its first element. \<open>adv\<close> turns the unexpected EOF of its
  type-byte read into \<open>TokenEOF\<close> without looking at the context stack: \<open>Next\<close> returns the
  EOF token, not an error, counts it as the second element, and closes the array on
  the call after. The same happens in a hash that breaks off after a key
  (\<open>04 08 7B 06 30\<close>) and where the value an IVar wraps is due (\<open>04 08 49\<close>). When the input
  ends behind the type byte of a value, as in \<open>04 08 5B 07 69\<close>, \<open>Next\<close> does return an
  unexpected-EOF error.
\<close>

theorem eof_inside_container_is_token:
  "tokens 4 (NewParser [0x04, 0x08, 0x5B, 0x07, 0x30])
     = [Tok TokenStartArray, Tok TokenNil, Tok TokenEOF, Tok TokenEndArray]
   \<and> tokens 4 (NewParser [0x04, 0x08, 0x7B, 0x06, 0x30])
     = [Tok TokenStartHash, Tok TokenNil, Tok TokenEOF, Tok TokenEndHash]
   \<and> tokens 2 (NewParser [0x04, 0x08, 0x49]) = [Tok TokenStartIVar, Tok TokenEOF]
   \<and> tokens 2 (NewParser [0x04, 0x08, 0x5B, 0x07, 0x69])
     = [Tok TokenStartArray,
        Failed (Wrap ''rmarsh.Parser.Next()'' (Wrap ''fixnum'' ErrUnexpectedEOF))]"
  by (simp add: parser_eval)

subsection \<open>Packed longs through the parser\<close>

text \<open>
  C1, evaluated where it fails. \<open>encodeLong\<close> emits the single byte \<open>FA\<close> for -1. \<open>Parser.long\<close>
  reads that byte as the unsigned 250, takes it for a length and asks for 250 more bytes:
  on the encoder's output it ends in unexpected EOF (returned with the value 250), and so
  does \<open>Next\<close> on the stream
  \<open>04 08 69 FA\<close> that \<open>Fixnum(-1)\<close> writes.
\<close>

theorem long_roundtrip_fails_at_minus_one:
  "packed (- 1) = Some [0xFA]
   \<and> returned (long (NewParser [0xFA])) = Some (Inl (ErrUnexpectedEOF, 250))
   \<and> written (andThen NewGenerator (Fixnum (- 1))) = Some [0x04, 0x08, 0x69, 0xFA]
   \<and> tokens 1 (NewParser [0x04, 0x08, 0x69, 0xFA])
       = [Failed (Wrap ''rmarsh.Parser.Next()'' (Wrap ''fixnum'' ErrUnexpectedEOF))]"
proof -
  have "packed (- 1) = Some [0xFA]" by code_simp
  moreover have "returned (long (NewParser [0xFA])) = Some (Inl (ErrUnexpectedEOF, 250))"
    by (simp add: parser_eval returned_def bind_def)
  moreover have "written (andThen NewGenerator (Fixnum (- 1))) = Some [0x04, 0x08, 0x69, 0xFA]"
    by code_simp
  moreover have "tokens 1 (NewParser [0x04, 0x08, 0x69, 0xFA])
       = [Failed (Wrap ''rmarsh.Parser.Next()'' (Wrap ''fixnum'' ErrUnexpectedEOF))]"
    by (simp add: parser_eval)
  ultimately show ?thesis by simp
qed

subsection \<open>The link table\<close>

text \<open>
  C3, evaluated where it fails. In the stream \<open>04 08 5B 06 22 06 61\<close>, the array holding the
  string "a", the array takes link id 0. The string is linkable and should take id 1, but
  when its token is current the link table still has one entry and \<open>LinkId\<close> returns -1.
\<close>

theorem string_gets_no_link_id:
  "map_option (\<lambda>p. (p_cur p, LinkId p, length (p_lnkTbl p)))
     (after_n 2 (NewParser [0x04, 0x08, 0x5B, 0x06, 0x22, 0x06, 0x61]))
   = Some (TokenString, - 1, 1)"
  by (simp add: parser_eval)

subsection \<open>Containers as instance variable values\<close>

text \<open>
  C5, evaluated where it fails. The stream \<open>04 08 5B 07 49 22 06 78 06 3A 07 40 61 5B 00 30\<close>
  is the array of the string "x", carrying the instance variable \<open>@a = []\<close>, and nil. The
  empty array is started from \<open>advIVar\<close>, which does not advance the new context from -1
  to 0: the parser reads the following nil as an element of the array of declared size
  zero, closes that array, and then fails; neither the IVar nor the outer array is closed.
\<close>

theorem ivar_array_value_miscounts:
  "tokens 7 (NewParser [0x04, 0x08, 0x5B, 0x07, 0x49, 0x22, 0x06, 0x78, 0x06, 0x3A, 0x07,
                        0x40, 0x61, 0x5B, 0x00, 0x30])
   = [Tok TokenStartArray, Tok TokenStartIVar, Tok TokenString, Tok TokenStartArray,
      Tok TokenNil, Tok TokenEndArray, Failed (ErrIVarToken TokenEOF)]"
  by (simp add: parser_eval)

subsection \<open>Symlink ids\<close>

text \<open>
  C10, evaluated where it fails. A symlink tag followed by the length byte \<open>80\<close> makes
  \<open>Parser.long\<close> read 128 payload bytes; with the eighth of them \<open>80\<close> the decoded 64-bit
  id has its sign bit set. The test \<open>id >= len(p.symTbl)\<close> lets the negative id pass and
  the table is indexed out of range.
\<close>

theorem negative_symlink_id_panics:
  "tokens 1 (NewParser ([0x04, 0x08, 0x3B, 0x80] @ replicate 7 0 @ [0x80] @ replicate 120 0))
   = [Panicked IndexOutOfRange]"
  by (simp add: parser_eval)

end
